theory Spec2Isabelle
  imports Complex_Main "HOL-Library.Word" "HOL-Library.Log_Nat"
begin

unbundle bit_operations_syntax

section \<open>The HyperLogLog estimator of hyperloglog.go\<close>

text \<open>
  The Go package keeps a \<^verbatim>\<open>HyperLogLog\<close> struct with the register count \<^verbatim>\<open>m\<close>
  (\<^verbatim>\<open>uint\<close>, 64 bits wide on the 64-bit targets modelled here), the index width
  \<^verbatim>\<open>b\<close> (\<^verbatim>\<open>uint32\<close>), the bias constant \<^verbatim>\<open>alpha\<close> (\<^verbatim>\<open>float64\<close>) and the slice
  \<^verbatim>\<open>registers\<close> of \<^verbatim>\<open>uint8\<close>. Unsigned integers are words, so that \<^verbatim>\<open>-\<close> wraps and
  a shift by the width or more gives 0, as in Go. The size of the memory a slice may take
  is not modelled: a slice is a list of any length.
\<close>

subsection \<open>float64 values\<close>

text \<open>
  A \<^verbatim>\<open>float64\<close> is a finite real, an infinity or NaN. The special values follow
  IEEE 754 as Go's operators and \<^verbatim>\<open>math.Log\<close> produce them. The operations \<open>fadd\<close>,
  \<open>fsub\<close>, \<open>fmul\<close> and \<open>fdiv\<close> give the exact real result of the operands; the
  operators of Go are these followed by the rounding to the nearest binary64
  (\<open>add64\<close>, \<open>sub64\<close>, \<open>mul64\<close> and \<open>div64\<close> below), with overflow to an infinity and
  gradual underflow. The sign of zero alone is abstracted away (the one zero divisor of
  this program, the sum over an empty register array, is \<^verbatim>\<open>+0\<close>).
\<close>

datatype float64 = Fin real | PInf | NInf | NaN

fun fadd :: "float64 \<Rightarrow> float64 \<Rightarrow> float64" where
  "fadd (Fin x) (Fin y) = Fin (x + y)"
| "fadd NaN _ = NaN"
| "fadd _ NaN = NaN"
| "fadd PInf NInf = NaN"
| "fadd NInf PInf = NaN"
| "fadd PInf _ = PInf"
| "fadd _ PInf = PInf"
| "fadd NInf _ = NInf"
| "fadd _ NInf = NInf"

fun fneg :: "float64 \<Rightarrow> float64" where
  "fneg (Fin x) = Fin (- x)"
| "fneg PInf = NInf"
| "fneg NInf = PInf"
| "fneg NaN = NaN"

definition fsub :: "float64 \<Rightarrow> float64 \<Rightarrow> float64" where
  "fsub x y = fadd x (fneg y)"

text \<open>The infinity with the sign of a non-zero real.\<close>

definition inf_of_sign :: "real \<Rightarrow> float64" where
  "inf_of_sign x = (if x = 0 then NaN else if 0 < x then PInf else NInf)"

fun fmul :: "float64 \<Rightarrow> float64 \<Rightarrow> float64" where
  "fmul (Fin x) (Fin y) = Fin (x * y)"
| "fmul NaN _ = NaN"
| "fmul _ NaN = NaN"
| "fmul (Fin x) PInf = inf_of_sign x"
| "fmul (Fin x) NInf = inf_of_sign (- x)"
| "fmul PInf (Fin y) = inf_of_sign y"
| "fmul NInf (Fin y) = inf_of_sign (- y)"
| "fmul PInf PInf = PInf"
| "fmul NInf NInf = PInf"
| "fmul PInf NInf = NInf"
| "fmul NInf PInf = NInf"

text \<open>
  Division: \<^verbatim>\<open>x / 0\<close> is an infinity with the sign of \<^verbatim>\<open>x\<close>, \<^verbatim>\<open>0 / 0\<close> is NaN
  (HOL's \<open>x / 0 = 0\<close> is never used), a finite value over an infinity is 0.
\<close>

fun fdiv :: "float64 \<Rightarrow> float64 \<Rightarrow> float64" where
  "fdiv (Fin x) (Fin y) = (if y = 0 then inf_of_sign x else Fin (x / y))"
| "fdiv NaN _ = NaN"
| "fdiv _ NaN = NaN"
| "fdiv (Fin x) PInf = Fin 0"
| "fdiv (Fin x) NInf = Fin 0"
| "fdiv PInf (Fin y) = (if 0 \<le> y then PInf else NInf)"
| "fdiv NInf (Fin y) = (if 0 \<le> y then NInf else PInf)"
| "fdiv PInf PInf = NaN"
| "fdiv PInf NInf = NaN"
| "fdiv NInf PInf = NaN"
| "fdiv NInf NInf = NaN"

text \<open>Comparisons: every comparison with NaN is false.\<close>

fun fle :: "float64 \<Rightarrow> float64 \<Rightarrow> bool" where
  "fle (Fin x) (Fin y) = (x \<le> y)"
| "fle NaN _ = False"
| "fle _ NaN = False"
| "fle NInf _ = True"
| "fle _ PInf = True"
| "fle PInf _ = False"
| "fle _ NInf = False"

definition fgt :: "float64 \<Rightarrow> float64 \<Rightarrow> bool" where
  "fgt x y = (x \<noteq> NaN \<and> y \<noteq> NaN \<and> \<not> fle x y)"

subsection \<open>Rounding to binary64\<close>

text \<open>
  Rounding of a real to the nearest integer, ties to the even one.
\<close>

definition rhe :: "real \<Rightarrow> int" where
  "rhe r = (let f = \<lfloor>r\<rfloor>; d = r - of_int f
            in if d < 1 / 2 then f else if 1 / 2 < d then f + 1
               else if even f then f else f + 1)"

text \<open>
  The binary64 numbers around a real \<open>x\<close> are the multiples of \<open>ulp x\<close>: 53 bits of
  precision at the binary exponent of \<open>x\<close>, which is never below \<open>- 1022\<close> (the
  subnormal numbers are the multiples of \<open>2 ^ - 1074\<close>). \<open>rne\<close> rounds to the nearest of
  them, ties to the one with an even significand; \<open>round64\<close> is the IEEE 754 rounding
  \<^verbatim>\<open>roundTiesToEven\<close>, where a rounded value of magnitude \<open>2 ^ 1024\<close> or more is an
  infinity.
\<close>

definition expo :: "real \<Rightarrow> int" where
  "expo x = max \<lfloor>log 2 \<bar>x\<bar>\<rfloor> (- 1022)"

definition ulp :: "real \<Rightarrow> real" where
  "ulp x = 2 powr (of_int (expo x) - 52)"

definition rne :: "real \<Rightarrow> real" where
  "rne x = (if x = 0 then 0 else of_int (rhe (x / ulp x)) * ulp x)"

definition round64 :: "real \<Rightarrow> float64" where
  "round64 x = (if 2 ^ 1024 \<le> rne x then PInf
                else if rne x \<le> - (2 ^ 1024) then NInf
                else Fin (rne x))"

fun rnd :: "float64 \<Rightarrow> float64" where
  "rnd (Fin x) = round64 x"
| "rnd PInf = PInf"
| "rnd NInf = NInf"
| "rnd NaN = NaN"

text \<open>The operators \<^verbatim>\<open>+\<close>, \<^verbatim>\<open>-\<close>, \<^verbatim>\<open>*\<close> and \<^verbatim>\<open>/\<close> of Go on \<^verbatim>\<open>float64\<close>.\<close>

definition add64 :: "float64 \<Rightarrow> float64 \<Rightarrow> float64" where
  "add64 x y = rnd (fadd x y)"

definition sub64 :: "float64 \<Rightarrow> float64 \<Rightarrow> float64" where
  "sub64 x y = rnd (fsub x y)"

definition mul64 :: "float64 \<Rightarrow> float64 \<Rightarrow> float64" where
  "mul64 x y = rnd (fmul x y)"

definition div64 :: "float64 \<Rightarrow> float64 \<Rightarrow> float64" where
  "div64 x y = rnd (fdiv x y)"

text \<open>The binary64 numbers: a significand below \<open>2 ^ 53\<close> at an exponent in range.\<close>

definition is_double :: "real \<Rightarrow> bool" where
  "is_double x =
     (\<exists>n k. \<bar>n\<bar> < 2 ^ 53 \<and> - 1074 \<le> k \<and> k \<le> 971 \<and> x = of_int n * 2 powr of_int k)"

subsection \<open>Library functions\<close>

text \<open>
  \<^verbatim>\<open>math.Log\<close>: \<^verbatim>\<open>Log(+Inf) = +Inf\<close>, \<^verbatim>\<open>Log(0) = -Inf\<close>, \<^verbatim>\<open>Log(x < 0) = NaN\<close>,
  \<^verbatim>\<open>Log(NaN) = NaN\<close>. The value at a positive finite argument is the library's binary64
  approximation of the natural logarithm, which Go does not promise to be the correctly
  rounded one: it is the parameter \<open>ln64\<close>, and a statement that needs a property of it
  says so.
\<close>

fun Log :: "(real \<Rightarrow> float64) \<Rightarrow> float64 \<Rightarrow> float64" where
  "Log ln64 (Fin x) = (if x < 0 then NaN else if x = 0 then NInf else ln64 x)"
| "Log ln64 PInf = PInf"
| "Log ln64 NInf = NaN"
| "Log ln64 NaN = NaN"

text \<open>The correctly rounded logarithm, one function that \<open>ln64\<close> may be.\<close>

definition correctly_rounded_ln :: "real \<Rightarrow> float64" where
  "correctly_rounded_ln x = round64 (ln x)"

text \<open>
  \<^verbatim>\<open>math.Pow(2, float64(n))\<close> for an unsigned integer \<^verbatim>\<open>n\<close>: the power of two, which
  \<^verbatim>\<open>math.Pow\<close> returns exactly (it is a binary64 number for the \<open>n\<close> of this program,
  at most 255).
\<close>

definition Pow2 :: "nat \<Rightarrow> float64" where
  "Pow2 n = Fin (2 ^ n)"

definition exp32 :: float64 where
  "exp32 = Pow2 32"

text \<open>
  The conversion \<^verbatim>\<open>uint64(x)\<close> discards the fraction (truncation towards zero). Where
  the truncated value is no \<^verbatim>\<open>uint64\<close> (out of range, an infinity or NaN) the Go
  specification lets the implementation choose the result: \<open>impl\<close> is that choice.
\<close>

definition trunc :: "real \<Rightarrow> int" where
  "trunc r = (if r < 0 then \<lceil>r\<rceil> else \<lfloor>r\<rfloor>)"

fun to_uint64 :: "(float64 \<Rightarrow> 64 word) \<Rightarrow> float64 \<Rightarrow> 64 word" where
  "to_uint64 impl (Fin r) =
     (if 0 \<le> trunc r \<and> trunc r < 2 ^ 64 then word_of_int (trunc r) else impl (Fin r))"
| "to_uint64 impl x = impl x"

subsection \<open>The estimator\<close>

record HyperLogLog =
  m :: "64 word"
  b :: "32 word"
  alpha :: float64
  registers :: "8 word list"

text \<open>
  The two \<^verbatim>\<open>fmt.Errorf\<close> values of the package, with the numbers their messages print,
  and the run-time panic of an index expression out of range (index and length).
\<close>

datatype error = NotPowerOfTwo "64 word" | RegistersMismatch "64 word" "64 word"

datatype panic = IndexOutOfRange nat nat

subsection \<open>rho and Add\<close>

text \<open>
  The loop of \<^verbatim>\<open>rho\<close> on the variables \<^verbatim>\<open>val\<close> and \<^verbatim>\<open>r\<close>, both \<^verbatim>\<open>uint32\<close>:
  \<^verbatim>\<open>for val&0x80000000 == 0 && r <= max { r++; val <<= 1 }\<close>.
  It need not end (\<^verbatim>\<open>r++\<close> wraps), so not returning is the value \<open>None\<close>.
\<close>

partial_function (option) rho_loop :: "32 word \<Rightarrow> 32 word \<Rightarrow> 32 word \<Rightarrow> 32 word option" where
  "rho_loop val mx r =
     (if val AND 0x80000000 = 0 \<and> r \<le> mx then rho_loop (push_bit 1 val) mx (r + 1)
      else Some r)"

definition rho :: "32 word \<Rightarrow> 32 word \<Rightarrow> 8 word option" where
  "rho val mx = map_option ucast (rho_loop val mx 1)"

text \<open>
  \<^verbatim>\<open>Add\<close>: \<open>None\<close> when the call does not return, \<open>Inl\<close> when \<^verbatim>\<open>h.registers[j]\<close>
  panics, \<open>Inr\<close> the estimator after the call.
\<close>

definition Add :: "32 word \<Rightarrow> HyperLogLog \<Rightarrow> (panic + HyperLogLog) option" where
  "Add val h =
     (let k = 32 - b h in
      case rho (push_bit (unat (b h)) val) k of
        None \<Rightarrow> None
      | Some r \<Rightarrow>
          let j = unat (drop_bit (unat k) val) in
          if j < length (registers h) then
            Some (Inr (if registers h ! j < r then h\<lparr>registers := (registers h)[j := r]\<rparr> else h))
          else Some (Inl (IndexOutOfRange j (length (registers h)))))"

subsection \<open>Construction and Reset\<close>

text \<open>
  The conversion \<^verbatim>\<open>float64(n)\<close> of an unsigned integer: \<open>float64_of_nat\<close> is the number
  itself, \<open>to_float64\<close> its rounding to a binary64 (the same below \<open>2 ^ 53\<close>).
\<close>

definition float64_of_nat :: "nat \<Rightarrow> float64" where
  "float64_of_nat n = Fin (real n)"

definition to_float64 :: "nat \<Rightarrow> float64" where
  "to_float64 n = rnd (float64_of_nat n)"

text \<open>
  The bias is kept as the real number that the source writes, the constant or the value
  of the formula; \<^verbatim>\<open>Count\<close> rounds it to a binary64 where it reads the field. For 16,
  32 and 64 registers that is the constant Go stores.
\<close>

definition get_alpha :: "64 word \<Rightarrow> float64" where
  "get_alpha mm =
     (if mm = 16 then Fin 0.673
      else if mm = 32 then Fin 0.697
      else if mm = 64 then Fin 0.709
      else fdiv (Fin 0.7213) (fadd (Fin 1.0) (fdiv (Fin 1.079) (float64_of_nat (unat mm)))))"

text \<open>
  \<^verbatim>\<open>uint32(math.Ceil(math.Log2(float64(registers))))\<close>. For a positive count this is
  \<open>ceillog2\<close>, that is \<open>nat \<lceil>log 2 n\<rceil>\<close> (\<^verbatim>\<open>math.Log2\<close> is exact on the powers of two,
  the only counts that reach this line besides 0). For 0 the logarithm is \<^verbatim>\<open>-Inf\<close> and
  the conversion to \<^verbatim>\<open>uint32\<close> is left to the implementation: \<open>binf\<close> is its result.
\<close>

definition index_bits :: "32 word \<Rightarrow> 64 word \<Rightarrow> 32 word" where
  "index_bits binf mm = (if mm = 0 then binf else of_nat (ceillog2 (unat mm)))"

definition Reset :: "HyperLogLog \<Rightarrow> HyperLogLog" where
  "Reset h = h\<lparr>registers := replicate (unat (m h)) 0\<rparr>"

definition New :: "32 word \<Rightarrow> 64 word \<Rightarrow> error + HyperLogLog" where
  "New binf regs =
     (if regs AND (regs - 1) \<noteq> 0 then Inl (NotPowerOfTwo regs)
      else Inr (Reset \<lparr>m = regs, b = index_bits binf regs, alpha = get_alpha regs,
                       registers = []\<rparr>))"

subsection \<open>Count\<close>

text \<open>
  The two loops of \<^verbatim>\<open>Count\<close> over the registers, and the estimate before corrections.
  Every operation rounds. The constant \<^verbatim>\<open>5.0/2.0\<close> is the binary64 number 2.5 and
  \<^verbatim>\<open>1.0/30.0\<close> is the rounded \<open>1 / 30\<close> (Go evaluates constant expressions exactly and
  rounds at the conversion to \<^verbatim>\<open>float64\<close>).
\<close>

definition harmonic_sum :: "8 word list \<Rightarrow> float64" where
  "harmonic_sum regs =
     foldl (\<lambda>sum val. add64 sum (div64 (Fin 1.0) (Pow2 (unat val)))) (Fin 0.0) regs"

definition zero_registers :: "8 word list \<Rightarrow> nat" where
  "zero_registers regs = foldl (\<lambda>v r. if r = 0 then v + 1 else v) 0 regs"

definition raw_estimate :: "HyperLogLog \<Rightarrow> float64" where
  "raw_estimate h =
     (let mf = to_float64 (unat (m h)) in
      div64 (mul64 (mul64 (rnd (alpha h)) mf) mf) (harmonic_sum (registers h)))"

definition Count_estimate :: "(real \<Rightarrow> float64) \<Rightarrow> HyperLogLog \<Rightarrow> float64" where
  "Count_estimate ln64 h =
     (let mf = to_float64 (unat (m h));
          estimate = raw_estimate h
      in if fle estimate (mul64 (Fin (5.0 / 2.0)) mf) then
           (let v = zero_registers (registers h)
            in if 0 < v then mul64 mf (Log ln64 (div64 mf (to_float64 v))) else estimate)
         else if fgt estimate (mul64 (round64 (1.0 / 30.0)) exp32) then
           mul64 (fneg exp32) (Log ln64 (sub64 (Fin 1) (div64 estimate exp32)))
         else estimate)"

definition Count :: "(real \<Rightarrow> float64) \<Rightarrow> (float64 \<Rightarrow> 64 word) \<Rightarrow> HyperLogLog \<Rightarrow> 64 word" where
  "Count ln64 impl h = to_uint64 impl (Count_estimate ln64 h)"

subsection \<open>Merge and Intersect on a store\<close>

text \<open>
  \<^verbatim>\<open>Merge\<close> and \<^verbatim>\<open>Intersect\<close> take two pointers, which may be the same. The store
  is the list of the allocated estimators, a pointer is an index into it, and an index
  outside the store stands for \<^verbatim>\<open>nil\<close>. Every estimator owns its register slice.
\<close>

type_synonym store = "HyperLogLog list"

datatype fault = Index panic | NilDereference

text \<open>
  \<^verbatim>\<open>for j, r := range h2.registers\<close>: the indices are fixed when the loop starts, and
  \<^verbatim>\<open>r\<close> is read from the slice when its turn comes.
\<close>

fun Merge_loop :: "nat \<Rightarrow> nat \<Rightarrow> nat list \<Rightarrow> store \<Rightarrow> fault + store" where
  "Merge_loop p1 p2 [] s = Inr s"
| "Merge_loop p1 p2 (j # js) s =
     (let r = registers (s ! p2) ! j;
          regs1 = registers (s ! p1)
      in if j < length regs1 then
           Merge_loop p1 p2 js
             (if regs1 ! j < r then s[p1 := (s ! p1)\<lparr>registers := regs1[j := r]\<rparr>] else s)
         else Inl (Index (IndexOutOfRange j (length regs1))))"

definition Merge :: "nat \<Rightarrow> nat \<Rightarrow> store \<Rightarrow> fault + (error option \<times> store)" where
  "Merge p1 p2 s =
     (if \<not> (p1 < length s \<and> p2 < length s) then Inl NilDereference
      else if m (s ! p1) \<noteq> m (s ! p2) then
        Inr (Some (RegistersMismatch (m (s ! p1)) (m (s ! p2))), s)
      else
        (case Merge_loop p1 p2 [0..<length (registers (s ! p2))] s of
           Inl f \<Rightarrow> Inl f
         | Inr s' \<Rightarrow> Inr (None, s')))"

text \<open>\<^verbatim>\<open>New\<close> as an allocation: the new estimator gets the next free address.\<close>

definition New_alloc :: "32 word \<Rightarrow> 64 word \<Rightarrow> store \<Rightarrow> (error + nat) \<times> store" where
  "New_alloc binf regs s =
     (case New binf regs of
        Inl e \<Rightarrow> (Inl e, s)
      | Inr h \<Rightarrow> (Inr (length s), s @ [h]))"

text \<open>
  \<^verbatim>\<open>Intersect\<close> returns the count and the error; the errors of the two inner
  \<^verbatim>\<open>Merge\<close> calls are dropped, as in the source.
\<close>

definition Intersect ::
  "(real \<Rightarrow> float64) \<Rightarrow> (float64 \<Rightarrow> 64 word) \<Rightarrow> 32 word \<Rightarrow> nat \<Rightarrow> nat \<Rightarrow> store \<Rightarrow>
     fault + ((64 word \<times> error option) \<times> store)" where
  "Intersect ln64 impl binf p1 p2 s =
     (if \<not> (p1 < length s \<and> p2 < length s) then Inl NilDereference
      else if m (s ! p1) \<noteq> m (s ! p2) then
        Inr ((0, Some (RegistersMismatch (m (s ! p1)) (m (s ! p2)))), s)
      else
        (case New_alloc binf (m (s ! p1)) s of
           (Inl mergeErr, s0) \<Rightarrow> Inr ((0, Some mergeErr), s0)
         | (Inr merged, s0) \<Rightarrow>
             (case Merge merged p1 s0 of
                Inl f \<Rightarrow> Inl f
              | Inr (_, s1) \<Rightarrow>
                  (case Merge merged p2 s1 of
                     Inl f \<Rightarrow> Inl f
                   | Inr (_, s2) \<Rightarrow>
                       (let unionCount = Count ln64 impl (s2 ! merged);
                            cumulativeCount =
                              Count ln64 impl (s2 ! p1) + Count ln64 impl (s2 ! p2)
                        in if cumulativeCount < unionCount then Inr ((0, None), s2)
                           else Inr ((cumulativeCount - unionCount, None), s2))))))"

subsection \<open>Unserialize\<close>

text \<open>
  \<^verbatim>\<open>DataObj\<close> is what \<^verbatim>\<open>json.Unmarshal\<close> fills; \<^verbatim>\<open>R\<close> is a slice of \<^verbatim>\<open>int\<close>
  (64 bits), and \<^verbatim>\<open>uint8(v)\<close> keeps the low 8 bits. The decoder belongs to the
  standard library: its result on the input string is the argument \<open>decoded\<close>, \<open>Inl\<close>
  the text of the error when \<^verbatim>\<open>err != nil\<close>, \<open>Inr\<close> the object otherwise.
  \<^verbatim>\<open>Unserialize\<close> has no result: the model returns the receiver after the call and
  the lines written to standard output.
\<close>

record DataObj =
  M :: "64 word"
  B :: "32 word"
  A :: float64
  R :: "64 word list"

definition Unserialize :: "string + DataObj \<Rightarrow> HyperLogLog \<Rightarrow> HyperLogLog \<times> string list" where
  "Unserialize decoded h =
     (case decoded of
        Inl err \<Rightarrow> (h, [''error: '' @ err])
      | Inr d \<Rightarrow> (\<lparr>m = M d, b = B d, alpha = A d, registers = map ucast (R d)\<rparr>, []))"

subsection \<open>The specification's wording\<close>

text \<open>
  The rank as the specification words it: the count of leading zero bits of the 32-bit
  word plus one, clamped to the available width plus one.
\<close>

primrec leading_zeros_below :: "nat \<Rightarrow> 32 word \<Rightarrow> nat" where
  "leading_zeros_below 0 w = 0"
| "leading_zeros_below (Suc n) w = (if bit w n then 0 else Suc (leading_zeros_below n w))"

definition leading_zeros :: "32 word \<Rightarrow> nat" where
  "leading_zeros w = leading_zeros_below 32 w"

definition rank_spec :: "nat \<Rightarrow> 32 word \<Rightarrow> nat" where
  "rank_spec ib hash = min (leading_zeros (push_bit ib hash) + 1) (32 - ib + 1)"


text \<open>The bias as the specification words it, on real numbers.\<close>

definition bias_spec :: "nat \<Rightarrow> real" where
  "bias_spec n =
     (if n = 16 then 0.673 else if n = 32 then 0.697 else if n = 64 then 0.709
      else 0.7213 / (1 + 1.079 / real n))"

text \<open>
  \<^verbatim>\<open>Count\<close> takes the linear-counting branch: the raw estimate is at most \<open>2.5 m\<close> and
  some register is zero.
\<close>

definition uses_linear_counting :: "HyperLogLog \<Rightarrow> bool" where
  "uses_linear_counting h =
     (fle (raw_estimate h) (mul64 (Fin (5.0 / 2.0)) (to_float64 (unat (m h)))) \<and>
      0 < zero_registers (registers h))"

text \<open>
  Properties of a logarithm function on the binary64 numbers: it is 0 at 1 and finite and
  monotone on the positive numbers; and, from \<open>31 / 32\<close> down, it is below
  \<open>(y - 1) * (1 + 1 / 256)\<close>, which the natural logarithm is with room to spare.
\<close>

definition monotone_log :: "(real \<Rightarrow> float64) \<Rightarrow> bool" where
  "monotone_log ln64 =
     (ln64 1 = Fin 0 \<and>
      (\<forall>x y. is_double x \<and> is_double y \<and> 0 < x \<and> x \<le> y \<longrightarrow>
         (\<exists>l l'. ln64 x = Fin l \<and> ln64 y = Fin l' \<and> l \<le> l')))"

definition accurate_log :: "(real \<Rightarrow> float64) \<Rightarrow> bool" where
  "accurate_log ln64 =
     (\<forall>y. is_double y \<and> 0 < y \<and> y \<le> 31 / 32 \<longrightarrow>
         (\<exists>l. ln64 y = Fin l \<and> l \<le> (y - 1) * (1 + 1 / 256)))"

text \<open>The invariant \<^verbatim>\<open>len(registers) == registerCount\<close> of the data model.\<close>

definition length_invariant :: "HyperLogLog \<Rightarrow> bool" where
  "length_invariant h = (length (registers h) = unat (m h))"

text \<open>
  What the caller of \<^verbatim>\<open>Unserialize\<close> holds after the call: the method has no result
  parameter, so it is the receiver alone (the printed lines go to standard output).
\<close>

definition caller_view :: "HyperLogLog \<times> string list \<Rightarrow> HyperLogLog" where
  "caller_view result = fst result"

section \<open>rho and Add\<close>

lemma leading_zeros_below_le: "leading_zeros_below n w \<le> n"
  by (induction n) auto

lemma bit_shl1: "bit (push_bit 1 (w::32 word)) n = (0 < n \<and> n < 32 \<and> bit w (n - 1))"
  unfolding bit_push_bit_iff by (auto dest: bit_imp_le_length)

lemma top_bit_test: "((w::32 word) AND 0x80000000 = 0) = (\<not> bit w 31)"
proof -
  have "(0x80000000::32 word) = push_bit 31 1" by simp
  then show ?thesis
    by (metis and_exp_eq_0_iff_not_bit push_bit_of_1)
qed

lemma leading_zeros_below_shift:
  "n < 32 \<Longrightarrow> leading_zeros_below (Suc n) (push_bit 1 w) =
     (if leading_zeros_below n w = n then Suc n else leading_zeros_below n w)"
proof (induction n)
  case 0
  have "\<not> bit (push_bit 1 w) 0" unfolding bit_shl1 by simp
  then show ?case unfolding leading_zeros_below.simps by simp
next
  case (Suc n)
  then have "bit (push_bit 1 w) (Suc n) = bit w n"
    unfolding bit_shl1 by simp
  with Suc show ?case unfolding leading_zeros_below.simps by simp
qed

lemma rho_loop_eq:
  assumes "unat mx \<le> 32" "1 \<le> unat r" "unat r \<le> unat mx + 1"
  shows "rho_loop val mx r = Some (of_nat (min (unat r + leading_zeros val) (unat mx + 1)))"
  using assms
proof (induction "unat mx + 1 - unat r" arbitrary: val r)
  case 0
  then have r: "unat r = unat mx + 1" by simp
  then have "\<not> r \<le> mx" by (simp add: word_le_nat_alt)
  then have "rho_loop val mx r = Some r" by (subst rho_loop.simps) simp
  moreover have "min (unat r + leading_zeros val) (unat mx + 1) = unat r"
    using r by simp
  ultimately show ?case by simp
next
  case (Suc n)
  then have le: "r \<le> mx" and ur: "unat r \<le> unat mx" by (simp_all add: word_le_nat_alt)
  show ?case
  proof (cases "bit val 31")
    case True
    then have "rho_loop val mx r = Some r" by (subst rho_loop.simps) (simp add: top_bit_test)
    moreover from True have "leading_zeros val = 0" by (simp add: leading_zeros_def eval_nat_numeral)
    moreover have "min (unat r + leading_zeros val) (unat mx + 1) = unat r"
      using ur \<open>leading_zeros val = 0\<close> by simp
    ultimately show ?thesis by simp
  next
    case False
    have ur1: "unat (r + 1) = unat r + 1"
      using ur Suc.prems(1) by (simp add: unat_word_ariths)
    have step: "rho_loop val mx r = rho_loop (push_bit 1 val) mx (r + 1)"
      using False le by (subst rho_loop.simps) (simp add: top_bit_test)
    have "rho_loop (push_bit 1 val) mx (r + 1) =
        Some (of_nat (min (unat (r + 1) + leading_zeros (push_bit 1 val)) (unat mx + 1)))"
      using Suc.hyps(2) Suc.prems ur ur1 by (intro Suc.hyps(1)) simp_all
    moreover have "min (unat (r + 1) + leading_zeros (push_bit 1 val)) (unat mx + 1) =
        min (unat r + leading_zeros val) (unat mx + 1)"
    proof -
      have a: "leading_zeros val = Suc (leading_zeros_below 31 val)"
        using False by (simp add: leading_zeros_def eval_nat_numeral)
      have b: "leading_zeros (push_bit 1 val) =
          (if leading_zeros_below 31 val = 31 then 32 else leading_zeros_below 31 val)"
        using leading_zeros_below_shift [of 31 val] by (simp add: leading_zeros_def eval_nat_numeral del: push_bit_of_Suc_0)
      show ?thesis unfolding a b ur1 using Suc.prems by (simp add: min_def)
    qed
    ultimately show ?thesis using step by simp
  qed
qed

lemma ucast_of_nat_small:
  "n < 2 ^ 32 \<Longrightarrow> (ucast (of_nat n :: 32 word) :: 8 word) = of_nat n"
  by (simp add: unsigned_of_nat take_bit_nat_eq_self)

lemma rho_eq:
  assumes "unat mx \<le> 32"
  shows "rho val mx = Some (of_nat (min (leading_zeros val + 1) (unat mx + 1)))"
proof -
  let ?n = "min (leading_zeros val + 1) (unat mx + 1)"
  have "rho_loop val mx 1 = Some (of_nat (min (unat (1::32 word) + leading_zeros val) (unat mx + 1)))"
    using assms by (intro rho_loop_eq) simp_all
  then have "rho_loop val mx 1 = Some (of_nat ?n)" by (simp add: add.commute)
  moreover have "ucast (of_nat ?n :: 32 word) = (of_nat ?n :: 8 word)"
    by (rule ucast_of_nat_small) (use assms in simp)
  ultimately show ?thesis by (simp only: rho_def option.map)
qed


lemma rho_loop_returns_only:
  assumes "rho_loop val mx r = Some y"
  shows "val \<noteq> 0 \<or> mx \<noteq> - 1"
proof (rule rho_loop.raw_induct [where P = "\<lambda>val mx r y. val \<noteq> 0 \<or> mx \<noteq> - 1", OF _ assms])
  fix f :: "32 word \<Rightarrow> 32 word \<Rightarrow> 32 word \<Rightarrow> 32 word option" and val mx r y :: "32 word"
  assume IH: "\<And>val mx r y. f val mx r = Some y \<Longrightarrow> val \<noteq> 0 \<or> mx \<noteq> - 1"
    and eq: "(if val AND 0x80000000 = 0 \<and> r \<le> mx then f (push_bit 1 val) mx (r + 1) else Some r) = Some y"
  show "val \<noteq> 0 \<or> mx \<noteq> - 1"
  proof (rule ccontr)
    assume "\<not> (val \<noteq> 0 \<or> mx \<noteq> - 1)"
    then have z: "val = 0" "mx = - 1" by simp_all
    with eq have "f 0 (- 1) (r + 1) = Some y" by simp
    from IH [OF this] show False by simp
  qed
qed

lemma rho_loop_diverges: "rho_loop 0 (- 1) r = None"
  using rho_loop_returns_only [of 0 "- 1" r] by (cases "rho_loop 0 (- 1) r") auto

lemma drop_bit_index_bound:
  assumes "ib \<le> 32"
  shows "unat (drop_bit (32 - ib) (val :: 32 word)) < 2 ^ ib"
proof -
  have "unat val < 2 ^ 32" using unsigned_less [of val] by simp
  also have "(2::nat) ^ 32 = 2 ^ (32 - ib) * 2 ^ ib"
    using assms by (simp flip: power_add)
  finally have "unat val div 2 ^ (32 - ib) < 2 ^ ib"
    by (simp add: less_mult_imp_div_less mult.commute)
  then show ?thesis by (subst unat_drop_bit_eq) (simp add: drop_bit_eq_div)
qed

lemma rank_spec_bounds: "1 \<le> rank_spec ib hash \<and> rank_spec ib hash \<le> 32 - ib + 1"
  by (simp add: rank_spec_def)

text \<open>
  An estimator without registers (\<^verbatim>\<open>New(0)\<close>, or the zero object decoded by
  \<^verbatim>\<open>Unserialize\<close>): the index expression of \<^verbatim>\<open>Add\<close> panics.
\<close>

lemma Add_on_empty_estimator_panics:
  "Add val \<lparr>m = 0, b = 0, alpha = Fin 0, registers = []\<rparr> = Some (Inl (IndexOutOfRange 0 0))"
proof -
  have "rho val 32 = Some (of_nat (min (leading_zeros val + 1) 33))"
    using rho_eq [of 32 val] by simp
  then show ?thesis by (simp add: Add_def)
qed

subsection \<open>Powers of two\<close>

lemma Add_diverges:
  assumes "b h = 33"
  shows "Add val h = None"
proof -
  have "rho (push_bit (unat (b h)) val) (32 - b h) = None"
    using assms rho_loop_diverges [of 1] by (simp add: rho_def)
  then show ?thesis by (simp add: Add_def)
qed

lemma pow2_and_pred:
  assumes "k < 64"
  shows "(2 ^ k :: 64 word) AND (2 ^ k - 1) = 0"
proof -
  have "(2 ^ k :: 64 word) - 1 = mask k" by (simp add: mask_eq_exp_minus_1)
  then show ?thesis
    by (auto intro!: bit_eqI simp add: bit_and_iff bit_exp_iff bit_mask_iff)
qed

lemma unat_pow2: "k < 64 \<Longrightarrow> unat (2 ^ k :: 64 word) = 2 ^ k"
proof -
  assume "k < 64"
  then have "(2::nat) ^ k < 2 ^ 64" by (intro power_strict_increasing) simp_all
  then have "unat (of_nat (2 ^ k) :: 64 word) = 2 ^ k"
    by (simp add: unat_of_nat take_bit_nat_eq_self del: of_nat_power)
  then show ?thesis by simp
qed

lemma New_pow2:
  assumes "k < 64"
  shows "New binf (2 ^ k) = Inr (Reset \<lparr>m = 2 ^ k, b = of_nat k, alpha = get_alpha (2 ^ k), registers = []\<rparr>)"
proof -
  have "(2 ^ k :: 64 word) \<noteq> 0" using assms by simp
  then have "index_bits binf (2 ^ k) = of_nat k"
    using assms by (simp add: index_bits_def unat_pow2)
  then show ?thesis using pow2_and_pred [OF assms] by (simp add: New_def)
qed
subsection \<open>Claim C1\<close>

text \<open>
  C1 (amended). For every 32-bit hash and every estimator whose index width \<open>b\<close> is at
  most 32 and that has \<open>2 ^ b\<close> registers, \<^verbatim>\<open>Add\<close> returns without a panic; the
  register index is \<open>j = hash >> (32 - b)\<close>, the rank \<open>r\<close> is the count of leading zeros of
  \<open>hash << b\<close> plus one, clamped to \<open>32 - b + 1\<close>, so \<open>1 \<le> r \<le> 32 - b + 1\<close>; register \<open>j\<close>
  becomes \<open>max (registers[j]) r\<close> and nothing else of the estimator changes.
\<close>

theorem Add_sets_register_to_max:
  assumes "unat (b h) \<le> 32" and "length (registers h) = 2 ^ unat (b h)"
  shows "unat (drop_bit (32 - unat (b h)) val) < length (registers h) \<and>
    1 \<le> rank_spec (unat (b h)) val \<and> rank_spec (unat (b h)) val \<le> 32 - unat (b h) + 1 \<and>
    Add val h = Some (Inr (h\<lparr>registers :=
      (registers h)[unat (drop_bit (32 - unat (b h)) val) :=
         max (registers h ! unat (drop_bit (32 - unat (b h)) val))
             (of_nat (rank_spec (unat (b h)) val))]\<rparr>))"
proof -
  let ?ib = "unat (b h)"
  let ?j = "unat (drop_bit (32 - ?ib) val)"
  let ?r = "of_nat (rank_spec ?ib val) :: 8 word"
  have k: "unat (32 - b h) = 32 - ?ib"
    using assms(1) by (simp add: unat_sub word_le_nat_alt)
  have j: "?j < length (registers h)"
    using drop_bit_index_bound [OF assms(1)] assms(2) by simp
  have "rho (push_bit ?ib val) (32 - b h) = Some ?r"
    using rho_eq [of "32 - b h" "push_bit ?ib val"] by (simp add: k rank_spec_def)
  then have "Add val h = Some (Inr (if registers h ! ?j < ?r
      then h\<lparr>registers := (registers h)[?j := ?r]\<rparr> else h))"
    using j by (simp add: Add_def k)
  moreover have "(if registers h ! ?j < ?r then h\<lparr>registers := (registers h)[?j := ?r]\<rparr> else h)
      = h\<lparr>registers := (registers h)[?j := max (registers h ! ?j) ?r]\<rparr>"
    by (simp add: max_def not_less)
  ultimately show ?thesis using j rank_spec_bounds by simp
qed


text \<open>The theorem at the hash \<open>0x10080000\<close> and a fresh estimator of 16 registers.\<close>

theorem Add_sets_register_to_max_witness:
  "unat (b \<lparr>m = 16, b = 4, alpha = Fin 0.673, registers = replicate 16 0\<rparr>) \<le> 32 \<and>
   length (registers \<lparr>m = 16, b = 4, alpha = Fin 0.673, registers = replicate 16 0\<rparr>) = 2 ^ 4 \<and>
   Add 0x10080000 \<lparr>m = 16, b = 4, alpha = Fin 0.673, registers = replicate 16 0\<rparr> =
     Some (Inr \<lparr>m = 16, b = 4, alpha = Fin 0.673, registers = (replicate 16 0)[1 := 9]\<rparr>)"
proof -
  have r: "rank_spec 4 0x10080000 = 9"
    by code_simp
  have j: "unat (drop_bit 28 (0x10080000 :: 32 word)) = 1"
    by code_simp
  show ?thesis
    using Add_sets_register_to_max [of "\<lparr>m = 16, b = 4, alpha = Fin 0.673, registers = replicate 16 0\<rparr>" "0x10080000"]
    by (simp add: r j)
qed

text \<open>
  C1 as stated, for every estimator, fails: \<^verbatim>\<open>New\<close> accepts \<open>2 ^ 33\<close> registers and sets
  \<open>b = 33\<close>; then \<open>32 - b\<close> wraps to \<open>2 ^ 32 - 1\<close>, \<open>hash << 33\<close> is 0, and the loop of
  \<^verbatim>\<open>rho\<close> never ends, so \<^verbatim>\<open>Add\<close> does not return.
\<close>

theorem Add_never_returns_counterexample:
  "New 0 (2 ^ 33) = Inr (Reset \<lparr>m = 2 ^ 33, b = 33, alpha = get_alpha (2 ^ 33), registers = []\<rparr>) \<and>
   Add 0 (Reset \<lparr>m = 2 ^ 33, b = 33, alpha = get_alpha (2 ^ 33), registers = []\<rparr>) = None"
proof (rule conjI)
  show "New 0 (2 ^ 33) = Inr (Reset \<lparr>m = 2 ^ 33, b = 33, alpha = get_alpha (2 ^ 33), registers = []\<rparr>)"
    using New_pow2 [of 33 0] by simp
  show "Add 0 (Reset \<lparr>m = 2 ^ 33, b = 33, alpha = get_alpha (2 ^ 33), registers = []\<rparr>) = None"
    by (rule Add_diverges) (simp add: Reset_def)
qed


section \<open>Construction\<close>




lemma unat_eq_iff_of_nat:
  fixes w :: "64 word"
  assumes "n < 2 ^ 64"
  shows "(unat w = n) = (w = of_nat n)"
proof
  assume "unat w = n"
  then have "of_nat (unat w) = (of_nat n :: 64 word)" by (simp only:)
  then show "w = of_nat n" by simp
next
  assume "w = of_nat n"
  then show "unat w = n" using assms by (simp add: unat_of_nat take_bit_nat_eq_self)
qed

lemma get_alpha_bias_spec:
  assumes "mm \<noteq> 0"
  shows "get_alpha mm = Fin (bias_spec (unat mm))"
proof -
  have "0 < unat mm" using assms by (simp add: unat_gt_0)
  then have pos: "0 < real (unat mm)" by (simp only: of_nat_0_less_iff)
  have eqs: "(unat mm = 16) = (mm = 16)" "(unat mm = 32) = (mm = 32)" "(unat mm = 64) = (mm = 64)"
    using unat_eq_iff_of_nat [of 16 mm] unat_eq_iff_of_nat [of 32 mm] unat_eq_iff_of_nat [of 64 mm]
    by simp_all
  have nz: "1 + 1079 / (1000 * real (unat mm)) \<noteq> 0"
    using pos by (smt (verit) divide_nonneg_nonneg mult_nonneg_nonneg)
  show ?thesis
    using pos nz by (simp add: get_alpha_def bias_spec_def float64_of_nat_def eqs)
qed


lemma New_pow2_spec:
  assumes "k < 64"
  shows "New binf (2 ^ k) =
    Inr \<lparr>m = 2 ^ k, b = of_nat k, alpha = Fin (bias_spec (2 ^ k)), registers = replicate (2 ^ k) 0\<rparr>"
proof -
  have "(2 ^ k :: 64 word) \<noteq> 0" using assms by simp
  then have "get_alpha (2 ^ k) = Fin (bias_spec (2 ^ k))"
    using get_alpha_bias_spec [of "2 ^ k"] assms by (simp add: unat_pow2)
  then show ?thesis
    using assms by (simp add: New_pow2 Reset_def unat_pow2)
qed


subsection \<open>Claim C3\<close>



subsection \<open>Claim C10\<close>

text \<open>
  C10. \<^verbatim>\<open>New(0)\<close> returns an estimator with an empty register array and no error: the
  test \<open>0 AND (0 - 1)\<close> is 0, so the count 0 passes. (Its bias is
  \<open>0.7213 / (1 + 1.079 / 0) = 0.7213 / +Inf = 0\<close>, and its index width is whatever the
  implementation makes of \<^verbatim>\<open>uint32(-Inf)\<close>.)
\<close>

theorem New_zero_registers:
  "New binf 0 = Inr \<lparr>m = 0, b = binf, alpha = Fin 0, registers = []\<rparr> \<and>
   (0 :: 64 word) AND (0 - 1) = 0"
  by (simp add: New_def Reset_def index_bits_def get_alpha_def float64_of_nat_def inf_of_sign_def)


section \<open>Merge and Intersect\<close>

lemma Merge_loop_self:
  assumes "\<forall>j\<in>set js. j < length (registers (s ! p))"
  shows "Merge_loop p p js s = Inr s"
  using assms by (induction js) simp_all

lemma Merge_loop_distinct:
  assumes "p1 \<noteq> p2" "p1 < length s" "p2 < length s" "distinct js"
    "\<forall>j\<in>set js. j < length (registers (s ! p1))"
  shows "\<exists>regs'. Merge_loop p1 p2 js s = Inr (s[p1 := (s ! p1)\<lparr>registers := regs'\<rparr>]) \<and>
    length regs' = length (registers (s ! p1)) \<and>
    (\<forall>k<length regs'. regs' ! k =
       (if k \<in> set js then max (registers (s ! p1) ! k) (registers (s ! p2) ! k)
        else registers (s ! p1) ! k))"
  using assms
proof (induction js arbitrary: s)
  case Nil
  have "s[p1 := (s ! p1)\<lparr>registers := registers (s ! p1)\<rparr>] = s" by simp
  then show ?case by (intro exI [of _ "registers (s ! p1)"]) simp
next
  case (Cons j js)
  let ?h1 = "s ! p1"
  let ?r1 = "registers ?h1"
  let ?r2 = "registers (s ! p2)"
  let ?r1' = "?r1[j := max (?r1 ! j) (?r2 ! j)]"
  let ?s1 = "s[p1 := ?h1\<lparr>registers := ?r1'\<rparr>]"
  have j: "j < length ?r1" "j \<notin> set js" using Cons.prems by simp_all
  have same: "(if ?r1 ! j < ?r2 ! j then s[p1 := ?h1\<lparr>registers := ?r1[j := ?r2 ! j]\<rparr>] else s) = ?s1"
  proof (cases "?r1 ! j < ?r2 ! j")
    case True
    then have "max (?r1 ! j) (?r2 ! j) = ?r2 ! j" by (intro max_absorb2 less_imp_le)
    then show ?thesis using True by simp
  next
    case False
    then have "max (?r1 ! j) (?r2 ! j) = ?r1 ! j" by (intro max_absorb1) (simp add: not_less)
    then show ?thesis using False by simp
  qed
  have step: "Merge_loop p1 p2 (j # js) s = Merge_loop p1 p2 js ?s1"
    using j same by (simp add: Let_def)
  have s1: "?s1 ! p1 = ?h1\<lparr>registers := ?r1'\<rparr>" "?s1 ! p2 = s ! p2"
    using Cons.prems by simp_all
  have "\<exists>regs'. Merge_loop p1 p2 js ?s1 = Inr (?s1[p1 := (?s1 ! p1)\<lparr>registers := regs'\<rparr>]) \<and>
    length regs' = length (registers (?s1 ! p1)) \<and>
    (\<forall>k<length regs'. regs' ! k =
       (if k \<in> set js then max (registers (?s1 ! p1) ! k) (registers (?s1 ! p2) ! k)
        else registers (?s1 ! p1) ! k))"
    using Cons.prems by (intro Cons.IH) (simp_all add: s1)
  then obtain regs' where r: "Merge_loop p1 p2 js ?s1 = Inr (?s1[p1 := (?s1 ! p1)\<lparr>registers := regs'\<rparr>])"
    "length regs' = length ?r1"
    "\<forall>k<length regs'. regs' ! k =
       (if k \<in> set js then max (?r1' ! k) (?r2 ! k) else ?r1' ! k)"
    by (auto simp: s1)
  have "Merge_loop p1 p2 (j # js) s = Inr (s[p1 := ?h1\<lparr>registers := regs'\<rparr>])"
    using step r(1) by (simp add: s1)
  moreover have "\<forall>k<length regs'. regs' ! k =
       (if k \<in> set (j # js) then max (?r1 ! k) (?r2 ! k) else ?r1 ! k)"
  proof (intro allI impI)
    fix k assume k: "k < length regs'"
    show "regs' ! k = (if k \<in> set (j # js) then max (?r1 ! k) (?r2 ! k) else ?r1 ! k)"
    proof (cases "k = j")
      case True
      then show ?thesis using r(3) k j r(2) by simp
    next
      case False
      then show ?thesis using r(3) k by simp
    qed
  qed
  ultimately show ?case using r(2) by blast
qed

lemma map2_max_self: "map2 max xs xs = (xs :: 8 word list)"
  by (induction xs) simp_all

lemma Merge_eq:
  assumes "p1 < length s" "p2 < length s" "m (s ! p1) = m (s ! p2)"
    "length (registers (s ! p1)) = length (registers (s ! p2))"
  shows "Merge p1 p2 s = Inr (None, s[p1 := (s ! p1)\<lparr>registers :=
    map2 max (registers (s ! p1)) (registers (s ! p2))\<rparr>])"
proof (cases "p1 = p2")
  case True
  have "Merge_loop p1 p1 [0..<length (registers (s ! p1))] s = Inr s"
    by (rule Merge_loop_self) simp
  then show ?thesis using assms True by (simp add: Merge_def map2_max_self)
next
  case False
  let ?r1 = "registers (s ! p1)"
  let ?r2 = "registers (s ! p2)"
  obtain regs' where r: "Merge_loop p1 p2 [0..<length ?r2] s = Inr (s[p1 := (s ! p1)\<lparr>registers := regs'\<rparr>])"
    "length regs' = length ?r1"
    "\<forall>k<length regs'. regs' ! k =
       (if k \<in> set [0..<length ?r2] then max (?r1 ! k) (?r2 ! k) else ?r1 ! k)"
    using Merge_loop_distinct [OF False assms(1,2), of "[0..<length ?r2]"] assms(4) by auto
  have "regs' = map2 max ?r1 ?r2"
    using r(2,3) assms(4) by (intro nth_equalityI) simp_all
  then show ?thesis using assms r(1) by (simp add: Merge_def)
qed


lemma map2_max_absorb: "map2 max (map2 max xs ys) ys = map2 max xs (ys :: 8 word list)"
  by (induction xs ys rule: list_induct2') simp_all

lemma map2_max_commute: "map2 max xs ys = map2 max ys (xs :: 8 word list)"
  by (induction xs ys rule: list_induct2') (simp_all add: max.commute)

lemma map2_max_zeros: "length xs = n \<Longrightarrow> map2 max (replicate n 0) xs = (xs :: 8 word list)"
  by (induction xs arbitrary: n) (auto simp: max_def)

lemma Intersect_eq:
  assumes "p1 < length s" and "p2 < length s" and "m (s ! p1) = m (s ! p2)"
    and "m (s ! p1) AND (m (s ! p1) - 1) = 0"
    and "length (registers (s ! p1)) = unat (m (s ! p1))"
    and "length (registers (s ! p2)) = unat (m (s ! p2))"
  shows "Intersect ln64 impl binf p1 p2 s =
    (let merged = \<lparr>m = m (s ! p1), b = index_bits binf (m (s ! p1)), alpha = get_alpha (m (s ! p1)),
                    registers = map2 max (registers (s ! p1)) (registers (s ! p2))\<rparr>;
         unionCount = Count ln64 impl merged;
         cumulativeCount = Count ln64 impl (s ! p1) + Count ln64 impl (s ! p2)
     in Inr ((if cumulativeCount < unionCount then 0 else cumulativeCount - unionCount, None),
             s @ [merged]))"
proof -
  let ?mm = "m (s ! p1)"
  let ?r1 = "registers (s ! p1)" and ?r2 = "registers (s ! p2)"
  let ?h0 = "\<lparr>m = ?mm, b = index_bits binf ?mm, alpha = get_alpha ?mm,
              registers = replicate (unat ?mm) 0\<rparr>"
  let ?n = "length s"
  let ?s0 = "s @ [?h0]"
  let ?s1 = "s @ [?h0\<lparr>registers := ?r1\<rparr>]"
  let ?s2 = "s @ [?h0\<lparr>registers := map2 max ?r1 ?r2\<rparr>]"
  have new: "New_alloc binf ?mm s = (Inr ?n, ?s0)"
    using assms(4) by (simp add: New_alloc_def New_def Reset_def)
  have "Merge ?n p1 ?s0 = Inr (None, ?s0[?n := (?s0 ! ?n)\<lparr>registers :=
      map2 max (registers (?s0 ! ?n)) (registers (?s0 ! p1))\<rparr>])"
    using assms by (intro Merge_eq) (simp_all add: nth_append)
  then have m1: "Merge ?n p1 ?s0 = Inr (None, ?s1)"
    using assms by (simp add: nth_append map2_max_zeros)
  have "Merge ?n p2 ?s1 = Inr (None, ?s1[?n := (?s1 ! ?n)\<lparr>registers :=
      map2 max (registers (?s1 ! ?n)) (registers (?s1 ! p2))\<rparr>])"
    using assms by (intro Merge_eq) (simp_all add: nth_append)
  then have m2: "Merge ?n p2 ?s1 = Inr (None, ?s2)"
    using assms by (simp add: nth_append)
  show ?thesis
    using assms(1,2,3) new m1 m2 by (simp add: Intersect_def Let_def nth_append)
qed

subsection \<open>Claim C4\<close>

text \<open>
  C4. For two estimators \<open>A\<close> (at \<open>p1\<close>) and \<open>B\<close> (at \<open>p2\<close>) with equal register
  count, each with as many registers as its count says, \<^verbatim>\<open>Merge\<close> returns no error and
  replaces the registers of \<open>A\<close> by the register-wise maximum; nothing else in the store
  changes, so \<open>B\<close> is as before. \<^verbatim>\<open>Merge(B, A)\<close> leaves the same register array in \<open>B\<close>;
  merging \<open>B\<close> a second time changes nothing, and merging an estimator into itself
  (\<open>p2 = p1\<close>) changes nothing.
\<close>

theorem Merge_is_pointwise_max:
  assumes "p1 < length s" and "p2 < length s" and "m (s ! p1) = m (s ! p2)"
    and "length (registers (s ! p1)) = unat (m (s ! p1))"
    and "length (registers (s ! p2)) = unat (m (s ! p2))"
  shows "Merge p1 p2 s = Inr (None, s[p1 := (s ! p1)\<lparr>registers :=
        map2 max (registers (s ! p1)) (registers (s ! p2))\<rparr>]) \<and>
    s[p1 := (s ! p1)\<lparr>registers := map2 max (registers (s ! p1)) (registers (s ! p2))\<rparr>] ! p2
      = s ! p2 \<and>
    Merge p2 p1 s = Inr (None, s[p2 := (s ! p2)\<lparr>registers :=
        map2 max (registers (s ! p1)) (registers (s ! p2))\<rparr>]) \<and>
    Merge p1 p2 (s[p1 := (s ! p1)\<lparr>registers := map2 max (registers (s ! p1)) (registers (s ! p2))\<rparr>])
      = Inr (None, s[p1 := (s ! p1)\<lparr>registers :=
          map2 max (registers (s ! p1)) (registers (s ! p2))\<rparr>]) \<and>
    Merge p1 p1 s = Inr (None, s)"
proof -
  let ?r1 = "registers (s ! p1)" and ?r2 = "registers (s ! p2)"
  let ?sAB = "s[p1 := (s ! p1)\<lparr>registers := map2 max ?r1 ?r2\<rparr>]"
  have len: "length ?r1 = length ?r2" using assms by simp
  have AB: "Merge p1 p2 s = Inr (None, ?sAB)"
    using assms(1,2,3) len by (rule Merge_eq)
  have "Merge p2 p1 s = Inr (None, s[p2 := (s ! p2)\<lparr>registers := map2 max ?r2 ?r1\<rparr>])"
    using assms(2,1) assms(3) [symmetric] len [symmetric] by (rule Merge_eq)
  then have BA: "Merge p2 p1 s = Inr (None, s[p2 := (s ! p2)\<lparr>registers := map2 max ?r1 ?r2\<rparr>])"
    by (simp add: map2_max_commute [of ?r2 ?r1])
  have self: "Merge p1 p1 s = Inr (None, s)"
    using Merge_eq [of p1 s p1] assms(1) by (simp add: map2_max_self)
  have p2: "?sAB ! p2 = s ! p2"
    using assms(1) by (cases "p1 = p2") (simp_all add: map2_max_self)
  have p1: "?sAB ! p1 = (s ! p1)\<lparr>registers := map2 max ?r1 ?r2\<rparr>"
    using assms(1) by simp
  have again: "Merge p1 p2 ?sAB = Inr (None, ?sAB)"
  proof -
    have "Merge p1 p2 ?sAB = Inr (None, ?sAB[p1 := (?sAB ! p1)\<lparr>registers :=
        map2 max (registers (?sAB ! p1)) (registers (?sAB ! p2))\<rparr>])"
      using assms(1,2,3) len by (intro Merge_eq) (simp_all add: p1 p2)
    then show ?thesis by (simp add: p1 p2 map2_max_absorb)
  qed
  from AB p2 BA again self show ?thesis by (intro conjI)
qed

text \<open>The theorem on a store of two estimators with two registers each.\<close>

theorem Merge_is_pointwise_max_witness:
  "(0::nat) < length [\<lparr>m = 2, b = 1, alpha = Fin 0.7, registers = [1, 5]\<rparr>,
                      \<lparr>m = 2, b = 1, alpha = Fin 0.7, registers = [3, 2]\<rparr>] \<and>
   Merge 0 1 [\<lparr>m = 2, b = 1, alpha = Fin 0.7, registers = [1, 5]\<rparr>,
              \<lparr>m = 2, b = 1, alpha = Fin 0.7, registers = [3, 2]\<rparr>] =
     Inr (None, [\<lparr>m = 2, b = 1, alpha = Fin 0.7, registers = [3, 5]\<rparr>,
                 \<lparr>m = 2, b = 1, alpha = Fin 0.7, registers = [3, 2]\<rparr>])"
  using Merge_is_pointwise_max [of 0 "[\<lparr>m = 2, b = 1, alpha = Fin 0.7, registers = [1, 5]\<rparr>,
              \<lparr>m = 2, b = 1, alpha = Fin 0.7, registers = [3, 2]\<rparr>]" 1]
  by simp

subsection \<open>Claim C6\<close>

text \<open>
  C6. For two estimators with different register counts, \<^verbatim>\<open>Merge\<close> and \<^verbatim>\<open>Intersect\<close>
  both return the error that names the two counts, and the store, with the receiver's
  registers in it, is exactly as before.
\<close>

theorem mismatch_is_reported_and_nothing_changes:
  assumes "p1 < length s" and "p2 < length s" and "m (s ! p1) \<noteq> m (s ! p2)"
  shows "Merge p1 p2 s = Inr (Some (RegistersMismatch (m (s ! p1)) (m (s ! p2))), s) \<and>
    Intersect ln64 impl binf p1 p2 s = Inr ((0, Some (RegistersMismatch (m (s ! p1)) (m (s ! p2)))), s)"
  using assms by (simp add: Merge_def Intersect_def)

text \<open>The theorem on an estimator of 16 and one of 32 registers.\<close>

theorem mismatch_is_reported_and_nothing_changes_witness:
  "Merge 0 1 [\<lparr>m = 16, b = 4, alpha = Fin 0.673, registers = replicate 16 0\<rparr>,
              \<lparr>m = 32, b = 5, alpha = Fin 0.697, registers = replicate 32 0\<rparr>] =
     Inr (Some (RegistersMismatch 16 32),
          [\<lparr>m = 16, b = 4, alpha = Fin 0.673, registers = replicate 16 0\<rparr>,
           \<lparr>m = 32, b = 5, alpha = Fin 0.697, registers = replicate 32 0\<rparr>]) \<and>
   Intersect correctly_rounded_ln (\<lambda>x. 0) 0 0 1 [\<lparr>m = 16, b = 4, alpha = Fin 0.673, registers = replicate 16 0\<rparr>,
              \<lparr>m = 32, b = 5, alpha = Fin 0.697, registers = replicate 32 0\<rparr>] =
     Inr ((0, Some (RegistersMismatch 16 32)),
          [\<lparr>m = 16, b = 4, alpha = Fin 0.673, registers = replicate 16 0\<rparr>,
           \<lparr>m = 32, b = 5, alpha = Fin 0.697, registers = replicate 32 0\<rparr>])"
  using mismatch_is_reported_and_nothing_changes [of 0 "[\<lparr>m = 16, b = 4, alpha = Fin 0.673, registers = replicate 16 0\<rparr>,
              \<lparr>m = 32, b = 5, alpha = Fin 0.697, registers = replicate 32 0\<rparr>]" 1 correctly_rounded_ln "\<lambda>x. 0" 0]
  by simp


section \<open>Rounding to binary64\<close>

lemma rhe_cases: "rhe r = \<lfloor>r\<rfloor> \<or> rhe r = \<lfloor>r\<rfloor> + 1"
  by (simp add: rhe_def Let_def)

lemma rhe_of_int [simp]: "rhe (of_int n) = n"
  by (simp add: rhe_def)

lemma rhe_mono:
  assumes "r \<le> s"
  shows "rhe r \<le> rhe s"
proof (cases "\<lfloor>r\<rfloor> = \<lfloor>s\<rfloor>")
  case True
  then show ?thesis using assms by (auto simp: rhe_def Let_def)
next
  case False
  then have "\<lfloor>r\<rfloor> < \<lfloor>s\<rfloor>" using floor_mono [OF assms] by simp
  then have "rhe r \<le> \<lfloor>s\<rfloor>" using rhe_cases [of r] by auto
  then show ?thesis using rhe_cases [of s] by auto
qed

lemma rhe_error: "\<bar>of_int (rhe r) - r\<bar> \<le> 1 / 2"
proof -
  have "of_int \<lfloor>r\<rfloor> \<le> r" "r < of_int \<lfloor>r\<rfloor> + 1" by linarith+
  then show ?thesis by (auto simp: rhe_def Let_def)
qed

lemma rhe_minus: "rhe (- r) = - rhe r"
proof (cases "r = of_int \<lfloor>r\<rfloor>")
  case True
  then have "rhe r = \<lfloor>r\<rfloor>" by (metis rhe_of_int)
  moreover have "rhe (- r) = - \<lfloor>r\<rfloor>" by (metis True of_int_minus rhe_of_int)
  ultimately show ?thesis by simp
next
  case False
  then have lt: "of_int \<lfloor>r\<rfloor> < r" by linarith
  have ub: "r < of_int \<lfloor>r\<rfloor> + 1" by linarith
  have f: "\<lfloor>- r\<rfloor> = - \<lfloor>r\<rfloor> - 1"
  proof (rule floor_unique)
    have c: "of_int (- \<lfloor>r\<rfloor> - 1) = - of_int \<lfloor>r\<rfloor> - (1::real)" by simp
    show "of_int (- \<lfloor>r\<rfloor> - 1) \<le> - r" unfolding c using ub by linarith
    show "- r < of_int (- \<lfloor>r\<rfloor> - 1) + 1" unfolding c using lt by linarith
  qed
  have d: "- r - of_int \<lfloor>- r\<rfloor> = 1 - (r - of_int \<lfloor>r\<rfloor>)" by (simp add: f)
  show ?thesis
    unfolding rhe_def Let_def d using lt by (auto simp: f)
qed

lemma expo_ge: "- 1022 \<le> expo x"
  by (simp add: expo_def)

lemma expo_minus [simp]: "expo (- x) = expo x"
  by (simp add: expo_def)

lemma ulp_minus [simp]: "ulp (- x) = ulp x"
  by (simp add: ulp_def)

lemma ulp_pos [simp]: "0 < ulp x"
  by (simp add: ulp_def)

lemma ulp_nonzero [simp]: "ulp x \<noteq> 0"
  by (simp add: ulp_def)

lemma abs_ulp [simp]: "\<bar>ulp x\<bar> = ulp x"
  by (simp add: ulp_def)

lemma rne_minus: "rne (- x) = - rne x"
  by (simp add: rne_def rhe_minus)

lemma expo_normal:
  assumes "2 powr (- 1022) \<le> x"
  shows "expo x = \<lfloor>log 2 x\<rfloor>" and "2 powr of_int (expo x) \<le> x" and "x < 2 powr (of_int (expo x) + 1)"
proof -
  have pos: "0 < x" using assms by (smt (verit) powr_gt_zero)
  have "- 1022 \<le> log 2 x" using assms pos by (simp add: le_log_iff)
  then have "- 1022 \<le> \<lfloor>log 2 x\<rfloor>" by (simp add: le_floor_iff)
  then show e: "expo x = \<lfloor>log 2 x\<rfloor>" using pos by (simp add: expo_def)
  have "\<lfloor>log 2 x\<rfloor> = expo x" using e by simp
  then have "2 powr of_int (expo x) \<le> x \<and> x < 2 powr of_int (expo x + 1)"
    using pos by (subst (asm) floor_log_eq_powr_iff) simp_all
  then show "2 powr of_int (expo x) \<le> x" and "x < 2 powr (of_int (expo x) + 1)" by simp_all
qed

lemma expo_subnormal:
  assumes "0 < x" and "x < 2 powr (- 1022)"
  shows "expo x = - 1022"
proof -
  have "log 2 x < - 1022" using assms by (simp add: log_less_iff)
  then have "\<lfloor>log 2 x\<rfloor> < - 1022" by (simp add: floor_less_iff)
  then show ?thesis using assms(1) by (simp add: expo_def)
qed

lemma expo_mono:
  assumes "0 < x" and "x \<le> y"
  shows "expo x \<le> expo y"
proof -
  have "log 2 x \<le> log 2 y" using assms by simp
  then have "\<lfloor>log 2 x\<rfloor> \<le> \<lfloor>log 2 y\<rfloor>" by (rule floor_mono)
  then show ?thesis using assms by (simp add: expo_def)
qed

lemma rne_grid_le:
  assumes "x \<noteq> 0" and "of_int n * ulp x \<le> x"
  shows "of_int n * ulp x \<le> rne x"
proof -
  have "of_int n \<le> x / ulp x" using assms(2) by (simp add: le_divide_eq)
  then have "rhe (of_int n) \<le> rhe (x / ulp x)" by (rule rhe_mono)
  then have "(of_int n :: real) \<le> of_int (rhe (x / ulp x))" by simp
  then show ?thesis using assms(1) by (simp add: rne_def)
qed

lemma rne_grid_ge:
  assumes "x \<noteq> 0" and "x \<le> of_int n * ulp x"
  shows "rne x \<le> of_int n * ulp x"
proof -
  have "x / ulp x \<le> of_int n" using assms(2) by (simp add: divide_le_eq)
  then have "rhe (x / ulp x) \<le> rhe (of_int n)" by (rule rhe_mono)
  then have "(of_int (rhe (x / ulp x)) :: real) \<le> of_int n" by simp
  then show ?thesis using assms(1) by (simp add: rne_def)
qed

lemma ulp_times_2_52: "2 ^ 52 * ulp x = 2 powr of_int (expo x)"
proof -
  have "(2::real) ^ 52 * ulp x = 2 powr (real 52) * 2 powr (of_int (expo x) - 52)"
    unfolding ulp_def by (subst powr_realpow) simp_all
  also have "\<dots> = 2 powr (real 52 + (of_int (expo x) - 52))"
    by (simp only: powr_add)
  also have "\<dots> = 2 powr of_int (expo x)" by simp
  finally show ?thesis .
qed

lemma ulp_times_2_53: "2 ^ 53 * ulp x = 2 powr (of_int (expo x) + 1)"
proof -
  have "(2::real) ^ 53 * ulp x = 2 powr (real 53) * 2 powr (of_int (expo x) - 52)"
    unfolding ulp_def by (subst powr_realpow) simp_all
  also have "\<dots> = 2 powr (real 53 + (of_int (expo x) - 52))"
    by (simp only: powr_add)
  also have "\<dots> = 2 powr (of_int (expo x) + 1)" by (simp add: add.commute)
  finally show ?thesis .
qed

lemma rne_nonneg:
  assumes "0 \<le> x"
  shows "0 \<le> rne x"
proof (cases "x = 0")
  case True
  then show ?thesis by (simp add: rne_def)
next
  case False
  then show ?thesis using rne_grid_le [of x 0] assms by simp
qed

lemma rne_lower:
  assumes "2 powr (- 1022) \<le> x"
  shows "2 powr of_int (expo x) \<le> rne x"
proof -
  have pos: "0 < x" using assms by (smt (verit) powr_gt_zero)
  have "of_int (2 ^ 52) * ulp x \<le> x"
    using expo_normal(2) [OF assms] ulp_times_2_52 [of x] by simp
  then have "of_int (2 ^ 52) * ulp x \<le> rne x" using pos by (intro rne_grid_le) simp_all
  then show ?thesis using ulp_times_2_52 [of x] by simp
qed

lemma rne_upper:
  assumes "0 < x"
  shows "rne x \<le> 2 powr (of_int (expo x) + 1)"
proof -
  have "x \<le> 2 powr (of_int (expo x) + 1)"
  proof (cases "2 powr (- 1022) \<le> x")
    case True
    then show ?thesis using expo_normal(3) [of x] by simp
  next
    case False
    then have e: "expo x = - 1022" using assms by (intro expo_subnormal) simp_all
    have "x \<le> 2 powr (- 1022)" using False by simp
    also have "\<dots> \<le> 2 powr (of_int (- 1022) + 1)" by (subst powr_le_cancel_iff) simp_all
    finally show ?thesis unfolding e .
  qed
  then have "x \<le> of_int (2 ^ 53) * ulp x" using ulp_times_2_53 [of x] by simp
  then have "rne x \<le> of_int (2 ^ 53) * ulp x" using assms by (intro rne_grid_ge) simp_all
  then show ?thesis using ulp_times_2_53 [of x] by simp
qed

lemma rne_mono_pos:
  assumes "0 < x" and "x \<le> y"
  shows "rne x \<le> rne y"
proof (cases "expo x = expo y")
  case True
  then have u: "ulp x = ulp y" by (simp add: ulp_def)
  have "x / ulp y \<le> y / ulp y" using assms(2) by (intro divide_right_mono) (simp_all add: less_imp_le)
  then have "rhe (x / ulp y) \<le> rhe (y / ulp y)" by (rule rhe_mono)
  then have "(of_int (rhe (x / ulp y)) :: real) * ulp y \<le> of_int (rhe (y / ulp y)) * ulp y"
    by (simp add: mult_right_mono)
  then show ?thesis using assms u by (simp add: rne_def)
next
  case False
  then have lt: "expo x < expo y" using expo_mono [OF assms] by simp
  then have "- 1022 < expo y" using expo_ge [of x] by simp
  then have normal: "2 powr (- 1022) \<le> y"
    using expo_subnormal [of y] assms by (cases "2 powr (- 1022) \<le> y") auto
  have "rne x \<le> 2 powr (of_int (expo x) + 1)" using assms(1) by (rule rne_upper)
  also have "\<dots> \<le> 2 powr of_int (expo y)" using lt by simp
  also have "\<dots> \<le> rne y" using normal by (rule rne_lower)
  finally show ?thesis .
qed

lemma rne_mono:
  assumes "x \<le> y"
  shows "rne x \<le> rne y"
proof -
  consider "0 < x" | "x \<le> 0" "0 \<le> y" | "y < 0" by linarith
  then show ?thesis
  proof cases
    case 1
    then show ?thesis using assms by (rule rne_mono_pos)
  next
    case 2
    have "rne x = - rne (- x)" by (simp add: rne_minus)
    then have "rne x \<le> 0" using rne_nonneg [of "- x"] 2(1) by simp
    then show ?thesis using rne_nonneg [OF 2(2)] by simp
  next
    case 3
    then have "rne (- y) \<le> rne (- x)" using assms by (intro rne_mono_pos) simp_all
    then show ?thesis by (simp add: rne_minus)
  qed
qed

lemma expo_abs [simp]: "expo \<bar>x\<bar> = expo x"
  by (simp add: expo_def)

lemma rne_exact:
  assumes "\<bar>n\<bar> < 2 ^ 53" and "- 1074 \<le> k" and "x = of_int n * 2 powr of_int k"
  shows "rne x = x"
proof (cases "x = 0")
  case True
  then show ?thesis by (simp add: rne_def)
next
  case False
  have "\<bar>x\<bar> = of_int \<bar>n\<bar> * 2 powr of_int k" by (simp add: assms(3) abs_mult)
  also have "\<dots> < of_int (2 ^ 53) * 2 powr of_int k"
    using assms(1) by (intro mult_strict_right_mono) simp_all
  also have "\<dots> = 2 powr (real 53) * 2 powr of_int k"
    by (subst powr_realpow) simp_all
  also have "\<dots> = 2 powr (53 + of_int k)" by (simp only: powr_add) simp
  finally have ub: "\<bar>x\<bar> < 2 powr (53 + of_int k)" .
  have e: "expo x \<le> 52 + k"
  proof (cases "2 powr (- 1022) \<le> \<bar>x\<bar>")
    case True
    have "2 powr of_int (expo \<bar>x\<bar>) \<le> \<bar>x\<bar>" using True by (rule expo_normal(2))
    then have "2 powr of_int (expo \<bar>x\<bar>) < (2::real) powr (53 + of_int k)" using ub by linarith
    then have "2 powr of_int (expo x) < (2::real) powr (53 + of_int k)" by (simp only: expo_abs)
    then have "real_of_int (expo x) < 53 + of_int k" by simp
    then have "expo x < 53 + k" by linarith
    then show ?thesis by simp
  next
    case False
    then have "expo \<bar>x\<bar> = - 1022" using \<open>x \<noteq> 0\<close> by (intro expo_subnormal) simp_all
    then show ?thesis using assms(2) by simp
  qed
  define j where "j = nat (k + 52 - expo x)"
  have j: "real j = of_int k + 52 - of_int (expo x)" using e by (simp add: j_def)
  have "2 powr of_int k = 2 powr (real j + (of_int (expo x) - 52))" by (simp add: j)
  also have "\<dots> = 2 powr (real j) * ulp x" by (simp only: powr_add ulp_def)
  also have "\<dots> = 2 ^ j * ulp x" by (subst powr_realpow) simp_all
  finally have "x = of_int (n * 2 ^ j) * ulp x" by (simp add: assms(3))
  then have "x / ulp x = of_int (n * 2 ^ j) * ulp x / ulp x" by simp
  then have "x / ulp x = of_int (n * 2 ^ j)" by (simp only: nonzero_mult_div_cancel_right [OF ulp_nonzero])
  then have "rne x = of_int (n * 2 ^ j) * ulp x"
    using False by (simp only: rne_def rhe_of_int if_False)
  then show ?thesis using \<open>x = of_int (n * 2 ^ j) * ulp x\<close> by simp
qed

lemma rne_error: "\<bar>rne x - x\<bar> \<le> ulp x / 2"
proof (cases "x = 0")
  case True
  then show ?thesis by (simp add: rne_def less_imp_le)
next
  case False
  have "\<bar>of_int (rhe (x / ulp x)) - x / ulp x\<bar> \<le> 1 / 2" by (rule rhe_error)
  then have "\<bar>of_int (rhe (x / ulp x)) - x / ulp x\<bar> * ulp x \<le> 1 / 2 * ulp x"
    by (intro mult_right_mono) (simp_all add: less_imp_le)
  moreover have "\<bar>of_int (rhe (x / ulp x)) - x / ulp x\<bar> * ulp x = \<bar>rne x - x\<bar>"
  proof -
    have "\<bar>of_int (rhe (x / ulp x)) - x / ulp x\<bar> * ulp x
        = \<bar>(of_int (rhe (x / ulp x)) - x / ulp x) * ulp x\<bar>"
      by (simp add: abs_mult)
    also have "(of_int (rhe (x / ulp x)) - x / ulp x) * ulp x = of_int (rhe (x / ulp x)) * ulp x - x"
      by (simp add: left_diff_distrib)
    finally show ?thesis using False by (simp add: rne_def)
  qed
  ultimately show ?thesis by simp
qed


lemma is_double_abs_less: 
  assumes "is_double x"
  shows "\<bar>x\<bar> < 2 ^ 1024"
proof -
  from assms obtain n k where n: "\<bar>n\<bar> < 2 ^ 53" and k: "k \<le> 971"
    and x: "x = of_int n * 2 powr of_int k"
    unfolding is_double_def by blast
  have "real_of_int \<bar>n\<bar> < real_of_int (2 ^ 53)" using n by (simp only: of_int_less_iff)
  then have a: "\<bar>real_of_int n\<bar> < 2 ^ 53" by simp
  have "(2::real) powr of_int k \<le> 2 powr of_int 971"
    using k by (subst powr_le_cancel_iff) simp_all
  also have "\<dots> = 2 powr real 971" by simp
  also have "\<dots> = 2 ^ 971" by (subst powr_realpow) simp_all
  finally have b: "(2::real) powr of_int k \<le> 2 ^ 971" .
  have "\<bar>x\<bar> = \<bar>real_of_int n\<bar> * 2 powr of_int k" unfolding x by (simp add: abs_mult)
  also have "\<dots> \<le> \<bar>real_of_int n\<bar> * 2 ^ 971" using b by (intro mult_left_mono) simp_all
  also have "\<dots> < 2 ^ 53 * 2 ^ 971" using a by (intro mult_strict_right_mono) simp_all
  also have "\<dots> = (2::real) ^ 1024" by (simp only: power_add [symmetric]) simp
  finally show ?thesis .
qed

lemma is_double_rne: "is_double x \<Longrightarrow> rne x = x"
  unfolding is_double_def using rne_exact by blast

lemma round64_exact: 
  assumes "is_double x"
  shows "round64 x = Fin x"
  using is_double_abs_less [OF assms] is_double_rne [OF assms]
  unfolding round64_def by (simp add: abs_less_iff)

lemma round64_between:
  assumes lo: "is_double lo" and hi: "is_double hi" and l: "lo \<le> x" and h: "x \<le> hi"
  shows "\<exists>r. round64 x = Fin r \<and> lo \<le> r \<and> r \<le> hi"
proof -
  have a: "lo \<le> rne x" using rne_mono [OF l] is_double_rne [OF lo] by simp
  have b: "rne x \<le> hi" using rne_mono [OF h] is_double_rne [OF hi] by simp
  have c: "rne x < 2 ^ 1024" using b is_double_abs_less [OF hi] by linarith
  have d: "- (2 ^ 1024) < rne x" using a is_double_abs_less [OF lo] by linarith
  show ?thesis unfolding round64_def using a b c d by simp
qed

lemma is_double_dyadic:
  assumes "\<bar>n\<bar> < 2 ^ 53" and "j \<le> 1074"
  shows "is_double (of_int n / 2 ^ j)"
proof -
  have "(2::real) powr of_int (- int j) = 1 / 2 ^ j"
    by (simp add: powr_minus powr_realpow inverse_eq_divide)
  then have "real_of_int n / 2 ^ j = of_int n * 2 powr of_int (- int j)" by simp
  moreover have "- 1074 \<le> - int j" "- int j \<le> 971" using assms(2) by simp_all
  ultimately show ?thesis unfolding is_double_def using assms(1) by blast
qed

lemma is_double_nat:
  assumes "n < 2 ^ 53"
  shows "is_double (real n)"
proof -
  have "\<bar>int n\<bar> < 2 ^ 53" using assms by (simp add: of_nat_less_numeral_power_cancel_iff) 
  from is_double_dyadic [OF this, of 0] show ?thesis by simp
qed

lemma is_double_pow2:
  assumes "k \<le> 971"
  shows "is_double (2 ^ k)"
proof -
  have "(2::real) ^ k = of_int 1 * 2 powr of_int (int k)"
    by (simp add: powr_realpow)
  moreover have "\<bar>1::int\<bar> < 2 ^ 53" by simp
  moreover have "- 1074 \<le> int k" "int k \<le> 971" using assms by simp_all
  ultimately show ?thesis unfolding is_double_def by blast
qed

lemma rne_idem_pos:
  assumes "0 < x"
  shows "rne (rne x) = rne x"
proof -
  define N where "N = rhe (x / ulp x)"
  have r: "rne x = of_int N * ulp x" using assms by (simp add: rne_def N_def)
  have "0 \<le> rne x" using assms by (intro rne_nonneg) simp
  then have "0 \<le> real_of_int N * ulp x" using r by simp
  then have "0 \<le> real_of_int N"
    using ulp_pos [of x] by (smt (verit) mult_neg_pos)
  then have N0: "0 \<le> N" by simp
  have "real_of_int N * ulp x \<le> 2 ^ 53 * ulp x"
    using rne_upper [OF assms] r ulp_times_2_53 [of x] by simp
  then have "real_of_int N \<le> 2 ^ 53" by simp
  then have "real_of_int N \<le> real_of_int (2 ^ 53)" by simp
  then have N1: "N \<le> 2 ^ 53" by (simp only: of_int_le_iff)
  have k: "- 1074 \<le> expo x - 52" using expo_ge [of x] by simp
  have u: "ulp x = 2 powr of_int (expo x - 52)" by (simp add: ulp_def)
  show ?thesis
  proof (cases "N = 2 ^ 53")
    case True
    have "rne x = 2 ^ 53 * ulp x" using r True by simp
    then have "rne x = of_int 1 * 2 powr of_int (expo x + 1)"
      using ulp_times_2_53 [of x] by simp
    moreover have "\<bar>1::int\<bar> < 2 ^ 53" by simp
    moreover have "- 1074 \<le> expo x + 1" using expo_ge [of x] by simp
    ultimately show ?thesis using rne_exact by blast
  next
    case False
    then have "\<bar>N\<bar> < 2 ^ 53" using N0 N1 by simp
    moreover have "rne x = of_int N * 2 powr of_int (expo x - 52)" using r u by simp
    ultimately show ?thesis using k rne_exact by blast
  qed
qed

lemma rne_idem: "rne (rne x) = rne x"
proof -
  consider "0 < x" | "x = 0" | "0 < - x" by linarith
  then show ?thesis
  proof cases
    case 1
    then show ?thesis by (rule rne_idem_pos)
  next
    case 2
    then show ?thesis by (simp add: rne_def)
  next
    case 3
    from rne_idem_pos [OF this] show ?thesis by (simp add: rne_minus)
  qed
qed

lemma round64_mono_Fin:
  assumes "x \<le> y" and "round64 y = Fin r" and "0 \<le> x"
  shows "\<exists>q. round64 x = Fin q \<and> 0 \<le> q \<and> q \<le> r"
proof -
  have a: "rne x \<le> rne y" by (rule rne_mono [OF assms(1)])
  have b: "0 \<le> rne x" using rne_mono [OF assms(3)] by (simp add: rne_def)
  have c: "rne y = r" "rne y < 2 ^ 1024"
    using assms(2) unfolding round64_def by (auto split: if_splits)
  show ?thesis unfolding round64_def using a b c by simp
qed

lemma round64_Fin_rne: "round64 x = Fin r \<Longrightarrow> r = rne x"
  unfolding round64_def by (auto split: if_splits)


lemma is_double_zero: "is_double 0"
  using is_double_nat [of 0] by simp

lemma is_double_one: "is_double 1"
  using is_double_nat [of 1] by simp

lemma is_double_minus: "is_double x \<Longrightarrow> is_double (- x)"
proof -
  assume "is_double x"
  then obtain n k where "\<bar>n\<bar> < 2 ^ 53" "- 1074 \<le> k" "k \<le> 971" "x = of_int n * 2 powr of_int k"
    unfolding is_double_def by blast
  then have "\<bar>- n\<bar> < 2 ^ 53 \<and> - 1074 \<le> k \<and> k \<le> 971 \<and> - x = of_int (- n) * 2 powr of_int k"
    by simp
  then show ?thesis unfolding is_double_def by blast
qed

lemma rne_is_double_pos:
  assumes "0 < x" and "rne x < 2 ^ 1024"
  shows "is_double (rne x)"
proof -
  define N where "N = rhe (x / ulp x)"
  have r: "rne x = of_int N * ulp x" using assms by (simp add: rne_def N_def)
  have "0 \<le> rne x" using assms by (intro rne_nonneg) simp
  then have "0 \<le> real_of_int N * ulp x" using r by simp
  then have "0 \<le> real_of_int N"
    using ulp_pos [of x] by (smt (verit) mult_neg_pos)
  then have N0: "0 \<le> N" by simp
  have "real_of_int N * ulp x \<le> 2 ^ 53 * ulp x"
    using rne_upper [OF assms(1)] r ulp_times_2_53 [of x] by simp
  then have "real_of_int N \<le> 2 ^ 53" by simp
  then have "real_of_int N \<le> real_of_int (2 ^ 53)" by simp
  then have N1: "N \<le> 2 ^ 53" by (simp only: of_int_le_iff)
  have p: "(2::real) powr of_int 1024 = 2 ^ 1024"
  proof -
    have "(2::real) powr of_int 1024 = 2 powr real 1024" by simp
    also have "\<dots> = 2 ^ 1024" by (subst powr_realpow) simp_all
    finally show ?thesis .
  qed
  have e: "expo x \<le> 1023"
  proof (rule ccontr)
    assume "\<not> expo x \<le> 1023"
    then have e: "1024 \<le> expo x" by simp
    have "2 powr (- 1022) \<le> x"
    proof (rule ccontr)
      assume "\<not> 2 powr (- 1022) \<le> x"
      then have "expo x = - 1022" using assms(1) by (intro expo_subnormal) simp_all
      then show False using e by simp
    qed
    then have "2 powr of_int (expo x) \<le> rne x" by (rule rne_lower)
    moreover have "(2::real) powr of_int 1024 \<le> 2 powr of_int (expo x)"
      using e by (subst powr_le_cancel_iff) simp_all
    ultimately show False using assms(2) p by linarith
  qed
  show ?thesis
  proof (cases "N = 2 ^ 53")
    case True
    have "rne x = 2 ^ 53 * ulp x" using r True by simp
    then have v: "rne x = 2 powr (of_int (expo x) + 1)"
      using ulp_times_2_53 [of x] by simp
    have e1: "expo x \<le> 1022"
    proof (rule ccontr)
      assume "\<not> expo x \<le> 1022"
      then have "1024 \<le> expo x + 1" by simp
      then have "(2::real) powr of_int 1024 \<le> 2 powr of_int (expo x + 1)"
        by (subst powr_le_cancel_iff) simp_all
      then show False using assms(2) p v by simp
    qed
    have "(2::real) powr (of_int (expo x) + 1) = 2 powr (real 52 + of_int (expo x - 51))"
      by (simp add: add.commute)
    also have "\<dots> = 2 powr real 52 * 2 powr of_int (expo x - 51)"
      by (simp only: powr_add)
    also have "\<dots> = of_int (2 ^ 52) * 2 powr of_int (expo x - 51)"
      by (subst powr_realpow) simp_all
    finally have "rne x = of_int (2 ^ 52) * 2 powr of_int (expo x - 51)" using v by simp
    moreover have "\<bar>2 ^ 52 :: int\<bar> < 2 ^ 53" by simp
    moreover have "- 1074 \<le> expo x - 51" using expo_ge [of x] by simp
    moreover have "expo x - 51 \<le> 971" using e1 by simp
    ultimately show ?thesis unfolding is_double_def by blast
  next
    case False
    then have "\<bar>N\<bar> < 2 ^ 53" using N0 N1 by simp
    moreover have "rne x = of_int N * 2 powr of_int (expo x - 52)" using r by (simp add: ulp_def)
    moreover have "- 1074 \<le> expo x - 52" using expo_ge [of x] by simp
    moreover have "expo x - 52 \<le> 971" using e by simp
    ultimately show ?thesis unfolding is_double_def by blast
  qed
qed

lemma rne_is_double:
  assumes "\<bar>rne x\<bar> < 2 ^ 1024"
  shows "is_double (rne x)"
proof -
  consider "0 < x" | "x = 0" | "0 < - x" by linarith
  then show ?thesis
  proof cases
    case 1
    then show ?thesis using assms by (intro rne_is_double_pos) simp_all
  next
    case 2
    then show ?thesis by (simp add: rne_def is_double_zero)
  next
    case 3
    have "rne (- x) < 2 ^ 1024" using assms by (simp add: rne_minus)
    from is_double_minus [OF rne_is_double_pos [OF 3 this]] show ?thesis
      by (simp add: rne_minus)
  qed
qed

lemma round64_is_double: "round64 x = Fin r \<Longrightarrow> is_double r"
proof -
  assume a: "round64 x = Fin r"
  then have "r = rne x" by (rule round64_Fin_rne)
  moreover have "\<bar>rne x\<bar> < 2 ^ 1024"
    using a unfolding round64_def by (auto split: if_splits)
  ultimately show ?thesis using rne_is_double by simp
qed

lemma rne_relative_error:
  assumes "2 powr (- 1022) \<le> x"
  shows "\<bar>rne x - x\<bar> \<le> x / 2 ^ 53"
proof -
  have "2 ^ 52 * ulp x \<le> x" using expo_normal(2) [OF assms] ulp_times_2_52 [of x] by simp
  then have "ulp x / 2 \<le> x / 2 ^ 53" by simp
  then show ?thesis using rne_error [of x] by linarith
qed

lemma ulp_below_one:
  assumes "0 < x" and "x < 1"
  shows "ulp x \<le> 1 / 2 ^ 53"
proof -
  have "log 2 x < 0" using assms by simp
  then have "\<lfloor>log 2 x\<rfloor> \<le> - 1" by (simp add: floor_le_iff)
  then have "expo x \<le> - 1" using assms(1) by (simp add: expo_def)
  then have "ulp x \<le> 2 powr (of_int (- 53))"
    unfolding ulp_def by (subst powr_le_cancel_iff) simp_all
  also have "\<dots> = 1 / 2 ^ 53" by (simp add: powr_minus_divide)
  finally show ?thesis .
qed

section \<open>Count\<close>

subsection \<open>The sums over the registers\<close>

lemma foldl_zero_registers:
  "foldl (\<lambda>v r. if r = 0 then v + 1 else v) k regs = k + length (filter (\<lambda>r. r = 0) regs)"
  by (induction regs arbitrary: k) simp_all

lemma zero_registers_eq: "zero_registers regs = length (filter (\<lambda>r. r = 0) regs)"
  by (simp add: zero_registers_def foldl_zero_registers)

lemma zero_registers_le: "zero_registers regs \<le> length regs"
  by (simp add: zero_registers_eq)

lemma zero_registers_mono:
  fixes xs ys :: "8 word list"
  assumes "list_all2 (\<le>) xs ys"
  shows "zero_registers ys \<le> zero_registers xs"
  unfolding zero_registers_eq using assms
proof (induction xs ys rule: list_all2_induct)
  case Nil
  then show ?case by simp
next
  case (Cons x xs y ys)
  then show ?case by (auto simp: word_le_0_iff)
qed

lemma to_float64_exact: "n < 2 ^ 53 \<Longrightarrow> to_float64 n = Fin (real n)"
  by (simp add: to_float64_def float64_of_nat_def round64_exact is_double_nat)

lemma register_term:
  fixes r :: "8 word"
  shows "div64 (Fin 1) (Pow2 (unat r)) = Fin (1 / 2 ^ unat r)"
proof -
  have "unat r < 2 ^ 8" using unsigned_less [of r] by simp
  then have "unat r \<le> 1074" by simp
  moreover have "\<bar>1::int\<bar> < 2 ^ 53" by simp
  ultimately have "is_double (of_int 1 / 2 ^ unat r)" by (intro is_double_dyadic)
  then show ?thesis by (simp add: div64_def Pow2_def round64_exact)
qed

lemma harmonic_sum_fold:
  "harmonic_sum regs = foldl (\<lambda>sum val. add64 sum (Fin (1 / 2 ^ unat val))) (Fin 0) regs"
  by (simp add: harmonic_sum_def register_term)

lemma add64_Fin: "add64 (Fin x) (Fin y) = round64 (x + y)"
  by (simp add: add64_def)

lemma harmonic_fold_mono:
  fixes xs ys :: "8 word list"
  assumes "list_all2 (\<le>) xs ys" and "is_double lb" and "lb \<le> s'" and "s' \<le> s"
    and "s \<le> real j" and "j + length xs < 2 ^ 53"
  shows "\<exists>S S'. foldl (\<lambda>sum val. add64 sum (Fin (1 / 2 ^ unat val))) (Fin s) xs = Fin S \<and>
     foldl (\<lambda>sum val. add64 sum (Fin (1 / 2 ^ unat val))) (Fin s') ys = Fin S' \<and>
     lb \<le> S' \<and> S' \<le> S \<and> S \<le> real (j + length xs)"
  using assms
proof (induction xs ys arbitrary: s s' j rule: list_all2_induct)
  case Nil
  then show ?case by simp
next
  case (Cons x xs y ys)
  have "unat x \<le> unat y" using Cons.hyps(1) by (simp add: word_le_nat_alt)
  then have "(2::real) ^ unat x \<le> 2 ^ unat y" by (intro power_increasing) simp_all
  then have t: "1 / 2 ^ unat y \<le> (1::real) / 2 ^ unat x" by (simp add: frac_le)
  have ty: "0 < (1::real) / 2 ^ unat y" by simp
  have tx: "(1::real) / 2 ^ unat x \<le> 1" by (simp add: divide_le_eq)
  have j1: "is_double (real (j + 1))" using Cons.prems(5) by (intro is_double_nat) simp
  have le: "s' + 1 / 2 ^ unat y \<le> s + 1 / 2 ^ unat x" using t Cons.prems(3) by linarith
  have "real (j + 1) = real j + 1" by simp
  then have up: "s + 1 / 2 ^ unat x \<le> real (j + 1)" using tx Cons.prems(4) by linarith
  have "lb \<le> s' + 1 / 2 ^ unat y" using ty Cons.prems(2) by linarith
  moreover have "s' + 1 / 2 ^ unat y \<le> real (j + 1)" using le up by linarith
  ultimately obtain q' where q': "round64 (s' + 1 / 2 ^ unat y) = Fin q'" "lb \<le> q'"
    using round64_between [OF Cons.prems(1) j1] by blast
  have "lb \<le> s + 1 / 2 ^ unat x" using ty t Cons.prems(2,3) by linarith
  then obtain q where q: "round64 (s + 1 / 2 ^ unat x) = Fin q" "q \<le> real (j + 1)"
    using round64_between [OF Cons.prems(1) j1 _ up] by blast
  have "q' \<le> q" using rne_mono [OF le] round64_Fin_rne [OF q(1)] round64_Fin_rne [OF q'(1)]
    by simp
  moreover have "j + 1 + length xs < 2 ^ 53" using Cons.prems(5) by simp
  ultimately obtain S S' where
    "foldl (\<lambda>sum val. add64 sum (Fin (1 / 2 ^ unat val))) (Fin q) xs = Fin S"
    "foldl (\<lambda>sum val. add64 sum (Fin (1 / 2 ^ unat val))) (Fin q') ys = Fin S'"
    "lb \<le> S'" "S' \<le> S" "S \<le> real (j + 1 + length xs)"
    using Cons.IH [OF Cons.prems(1) q'(2) _ q(2)] by blast
  then show ?case using q(1) q'(1) by (simp add: add64_Fin)
qed

lemma harmonic_sum_mono:
  fixes xs ys :: "8 word list"
  assumes "list_all2 (\<le>) xs ys" and "xs \<noteq> []" and "length xs < 2 ^ 53"
  shows "\<exists>S S'. harmonic_sum xs = Fin S \<and> harmonic_sum ys = Fin S' \<and>
     0 < S' \<and> S' \<le> S \<and> S \<le> real (length xs)"
proof -
  from assms(1,2) obtain x xs' y ys' where xs: "xs = x # xs'" and ys: "ys = y # ys'"
    and xy: "x \<le> y" and rest: "list_all2 (\<le>) xs' ys'"
    by (cases xs; cases ys) auto
  have "unat y < 2 ^ 8" using unsigned_less [of y] by simp
  then have y255: "unat y \<le> 255" by simp
  have "unat x \<le> unat y" using xy by (simp add: word_le_nat_alt)
  then have "(2::real) ^ unat x \<le> 2 ^ unat y" by (intro power_increasing) simp_all
  then have t: "1 / 2 ^ unat y \<le> (1::real) / 2 ^ unat x" by (simp add: frac_le)
  have "(2::real) ^ unat y \<le> 2 ^ 255" using y255 by (intro power_increasing) simp_all
  then have lb: "1 / 2 ^ 255 \<le> (1::real) / 2 ^ unat y" by (intro frac_le) simp_all
  have tx: "(1::real) / 2 ^ unat x \<le> real 1" by (simp add: divide_le_eq)
  have d: "is_double (1 / 2 ^ 255)" using is_double_dyadic [of 1 255] by simp
  have e: "\<And>r :: 8 word. round64 (1 / 2 ^ unat r) = Fin (1 / 2 ^ unat r)"
    using register_term by (simp add: div64_def Pow2_def)
  have "1 + length xs' < 2 ^ 53" using assms(3) xs by simp
  from harmonic_fold_mono [OF rest d lb t tx this]
  obtain S S' where
    "foldl (\<lambda>sum val. add64 sum (Fin (1 / 2 ^ unat val))) (Fin (1 / 2 ^ unat x)) xs' = Fin S"
    "foldl (\<lambda>sum val. add64 sum (Fin (1 / 2 ^ unat val))) (Fin (1 / 2 ^ unat y)) ys' = Fin S'"
    "1 / 2 ^ 255 \<le> S'" "S' \<le> S" "S \<le> real (1 + length xs')"
    by blast
  moreover have "(0::real) < 1 / 2 ^ 255" by simp
  ultimately show ?thesis
    unfolding harmonic_sum_fold xs ys by (simp add: add64_Fin e)
qed

lemma harmonic_fold_replicate:
  fixes w :: "8 word"
  assumes "j + n < 2 ^ 53"
  shows "foldl (\<lambda>sum val. add64 sum (Fin (1 / 2 ^ unat val))) (Fin (real j / 2 ^ unat w))
           (replicate n w) = Fin (real (j + n) / 2 ^ unat w)"
  using assms
proof (induction n arbitrary: j)
  case 0
  then show ?case by simp
next
  case (Suc n)
  have "unat w < 2 ^ 8" using unsigned_less [of w] by simp
  then have "unat w \<le> 1074" by simp
  moreover have "\<bar>int (j + 1)\<bar> < 2 ^ 53"
    using Suc.prems by (simp add: of_nat_less_numeral_power_cancel_iff)
  ultimately have "is_double (of_int (int (j + 1)) / 2 ^ unat w)" by (intro is_double_dyadic)
  then have "round64 (real (j + 1) / 2 ^ unat w) = Fin (real (j + 1) / 2 ^ unat w)"
    by (intro round64_exact) simp
  moreover have "real j / 2 ^ unat w + 1 / 2 ^ unat w = real (j + 1) / 2 ^ unat w"
    by (simp add: add_divide_distrib)
  ultimately have "add64 (Fin (real j / 2 ^ unat w)) (Fin (1 / 2 ^ unat w)) =
      Fin (real (j + 1) / 2 ^ unat w)"
    by (simp only: add64_Fin)
  moreover have "j + 1 + n < 2 ^ 53" using Suc.prems by simp
  ultimately show ?case using Suc.IH [of "j + 1"] by simp
qed

lemma harmonic_sum_replicate:
  fixes w :: "8 word"
  assumes "n < 2 ^ 53"
  shows "harmonic_sum (replicate n w) = Fin (real n / 2 ^ unat w)"
  using harmonic_fold_replicate [of 0 n w] assms by (simp add: harmonic_sum_fold)

subsection \<open>The branches of Count\<close>

lemma round64_nonneg:
  assumes "0 \<le> x"
  shows "round64 x = PInf \<or> (\<exists>r. round64 x = Fin r \<and> 0 \<le> r)"
  using rne_nonneg [OF assms] unfolding round64_def by auto

lemma real_less_2_53: "n < 2 ^ 53 \<Longrightarrow> real n < 2 ^ 53"
proof -
  assume "n < 2 ^ 53"
  then have "real n < real (2 ^ 53)" by (simp only: of_nat_less_iff)
  then show ?thesis by simp
qed

lemma small_threshold:
  assumes "n < 2 ^ 53"
  shows "mul64 (Fin (5 / 2)) (Fin (real n)) = Fin (rne (5 / 2 * real n))"
proof -
  have a: "0 \<le> 5 / 2 * real n" by simp
  have b: "5 / 2 * real n \<le> 2 ^ 55" using real_less_2_53 [OF assms] by simp
  have "is_double (2 ^ 55)" by (rule is_double_pow2) simp
  from round64_between [OF is_double_zero this a b]
  obtain r where r: "round64 (5 / 2 * real n) = Fin r" by blast
  then have "r = rne (5 / 2 * real n)" by (rule round64_Fin_rne)
  then show ?thesis using r by (simp add: mul64_def)
qed

lemma large_threshold:
  "\<exists>t. mul64 (round64 (1 / 30)) exp32 = Fin t \<and> 2 ^ 27 \<le> t \<and> t \<le> 2 ^ 28"
proof -
  have d1: "is_double (1 / 32)" using is_double_dyadic [of 1 5] by simp
  have d2: "is_double (1 / 16)" using is_double_dyadic [of 1 4] by simp
  have "(1::real) / 32 \<le> 1 / 30" "(1::real) / 30 \<le> 1 / 16" by simp_all
  from round64_between [OF d1 d2 this]
  obtain c where c: "round64 (1 / 30) = Fin c" "1 / 32 \<le> c" "c \<le> 1 / 16" by blast
  have d3: "is_double (2 ^ 27)" by (rule is_double_pow2) simp
  have d4: "is_double (2 ^ 28)" by (rule is_double_pow2) simp
  have "2 ^ 27 \<le> c * 2 ^ 32" "c * 2 ^ 32 \<le> 2 ^ 28" using c(2,3) by simp_all
  from round64_between [OF d3 d4 this]
  obtain t where "round64 (c * 2 ^ 32) = Fin t" "2 ^ 27 \<le> t" "t \<le> 2 ^ 28" by blast
  then show ?thesis using c(1) by (simp add: mul64_def exp32_def Pow2_def)
qed

lemma Count_estimate_unfold:
  assumes "raw_estimate h = Fin e" and "unat (m h) = n" and "n < 2 ^ 53"
    and "mul64 (round64 (1 / 30)) exp32 = Fin t"
  shows "Count_estimate ln64 h =
     (if e \<le> rne (5 / 2 * real n) then
        (if 0 < zero_registers (registers h)
         then mul64 (Fin (real n))
                (Log ln64 (div64 (Fin (real n)) (to_float64 (zero_registers (registers h)))))
         else Fin e)
      else if t < e then mul64 (fneg exp32) (Log ln64 (sub64 (Fin 1) (div64 (Fin e) exp32)))
      else Fin e)"
  using assms
  by (simp add: Count_estimate_def Let_def to_float64_exact small_threshold fgt_def not_le)

lemma uses_linear_counting_unfold:
  assumes "raw_estimate h = Fin e" and "unat (m h) = n" and "n < 2 ^ 53"
  shows "uses_linear_counting h =
     (e \<le> rne (5 / 2 * real n) \<and> 0 < zero_registers (registers h))"
  using assms by (simp add: uses_linear_counting_def to_float64_exact small_threshold)

lemma Count_estimate_PInf:
  assumes "raw_estimate h = PInf" and "unat (m h) = n" and "n < 2 ^ 53"
  shows "Count_estimate ln64 h = NaN"
proof -
  obtain t where t: "mul64 (round64 (1 / 30)) exp32 = Fin t" using large_threshold by blast
  have a: "\<not> fle (raw_estimate h) (mul64 (Fin (5 / 2)) (to_float64 (unat (m h))))"
    using assms by (simp add: to_float64_exact small_threshold)
  have b: "fgt (raw_estimate h) (mul64 (round64 (1 / 30)) exp32)"
    using assms(1) t by (simp add: fgt_def)
  have c: "mul64 (fneg exp32) (Log ln64 (sub64 (Fin 1) (div64 (raw_estimate h) exp32))) = NaN"
    using assms(1) by (simp add: div64_def sub64_def fsub_def mul64_def exp32_def Pow2_def)
  show ?thesis using a b c by (simp add: Count_estimate_def Let_def)
qed

text \<open>The product \<^verbatim>\<open>h.alpha*m*m\<close> of a bias that is not negative.\<close>

lemma numerator_cases:
  assumes "0 \<le> a" and "0 < n"
  shows "mul64 (mul64 (round64 a) (Fin (real n))) (Fin (real n)) = PInf \<or>
    (\<exists>c. mul64 (mul64 (round64 a) (Fin (real n))) (Fin (real n)) = Fin c \<and> 0 \<le> c)"
proof -
  from round64_nonneg [OF assms(1)] show ?thesis
  proof
    assume "round64 a = PInf"
    then show ?thesis using assms(2) by (simp add: mul64_def inf_of_sign_def)
  next
    assume "\<exists>r. round64 a = Fin r \<and> 0 \<le> r"
    then obtain r where r: "round64 a = Fin r" "0 \<le> r" by blast
    then have "0 \<le> r * real n" by simp
    from round64_nonneg [OF this] show ?thesis
    proof
      assume "round64 (r * real n) = PInf"
      then show ?thesis using r(1) assms(2) by (simp add: mul64_def inf_of_sign_def)
    next
      assume "\<exists>q. round64 (r * real n) = Fin q \<and> 0 \<le> q"
      then obtain q where q: "round64 (r * real n) = Fin q" "0 \<le> q" by blast
      then have "0 \<le> q * real n" by simp
      from round64_nonneg [OF this] show ?thesis using r(1) q(1) by (simp add: mul64_def)
    qed
  qed
qed

text \<open>The raw estimate does not decrease when registers grow.\<close>

lemma raw_estimate_mono:
  assumes rel: "list_all2 (\<le>) (registers g) (registers h)"
    and mg: "unat (m g) = n" and mh: "unat (m h) = n" and len: "length (registers g) = n"
    and n: "0 < n" "n < 2 ^ 53"
    and al: "alpha g = Fin a" "alpha h = Fin a" "0 \<le> a"
    and fin: "raw_estimate h = Fin eM"
  shows "\<exists>eX. raw_estimate g = Fin eX \<and> 0 \<le> eX \<and> eX \<le> eM"
proof -
  have ne: "registers g \<noteq> []" using len n(1) by auto
  have "length (registers g) < 2 ^ 53" using len n(2) by simp
  from harmonic_sum_mono [OF rel ne this]
  obtain S S' where S: "harmonic_sum (registers g) = Fin S" "harmonic_sum (registers h) = Fin S'"
    "0 < S'" "S' \<le> S" by blast
  have S0: "0 < S" using S(3,4) by linarith
  from numerator_cases [OF al(3) n(1)] show ?thesis
  proof
    assume "mul64 (mul64 (round64 a) (Fin (real n))) (Fin (real n)) = PInf"
    then have "raw_estimate h = PInf"
      using S(2,3) mh n(2) al(2)
      by (simp add: raw_estimate_def Let_def to_float64_exact div64_def)
    then show ?thesis using fin by simp
  next
    assume "\<exists>c. mul64 (mul64 (round64 a) (Fin (real n))) (Fin (real n)) = Fin c \<and> 0 \<le> c"
    then obtain c where c: "mul64 (mul64 (round64 a) (Fin (real n))) (Fin (real n)) = Fin c"
      "0 \<le> c" by blast
    have rh: "raw_estimate h = round64 (c / S')"
      using S(2,3) mh n(2) al(2) c(1)
      by (simp add: raw_estimate_def Let_def to_float64_exact div64_def)
    have rg: "raw_estimate g = round64 (c / S)"
      using S(1) S0 mg n(2) al(1) c(1)
      by (simp add: raw_estimate_def Let_def to_float64_exact div64_def)
    have "c / S \<le> c / S'" using S(3,4) c(2) by (intro divide_left_mono) simp_all
    moreover have "round64 (c / S') = Fin eM" using rh fin by simp
    moreover have "0 \<le> c / S" using c(2) S0 by simp
    ultimately show ?thesis unfolding rg by (rule round64_mono_Fin)
  qed
qed

lemma raw_estimate_finite:
  assumes "unat (m h) = n" and "n < 2 ^ 53" and "Count_estimate ln64 h = Fin r"
    and "raw_estimate h = PInf \<or> (\<exists>e. raw_estimate h = Fin e)"
  shows "\<exists>e. raw_estimate h = Fin e"
  using assms Count_estimate_PInf [of h n ln64] by auto

lemma rnd_Fin_is_double: "rnd v = Fin r \<Longrightarrow> is_double r"
  by (cases v) (simp_all add: round64_is_double)

lemma raw_estimate_is_double: "raw_estimate h = Fin e \<Longrightarrow> is_double e"
  unfolding raw_estimate_def Let_def div64_def by (rule rnd_Fin_is_double)

lemma list_all2_le_refl: "list_all2 (\<le>) xs (xs :: 8 word list)"
  by (simp add: list_all2_same)

lemma raw_estimate_cases:
  assumes "unat (m h) = n" and "length (registers h) = n" and "0 < n" and "n < 2 ^ 53"
    and "alpha h = Fin a" and "0 \<le> a"
  shows "raw_estimate h = PInf \<or> (\<exists>e. raw_estimate h = Fin e \<and> 0 \<le> e)"
proof -
  have ne: "registers h \<noteq> []" using assms(2,3) by auto
  have "length (registers h) < 2 ^ 53" using assms(2,4) by simp
  from harmonic_sum_mono [OF list_all2_le_refl ne this]
  obtain S where S: "harmonic_sum (registers h) = Fin S" "0 < S" by auto
  from numerator_cases [OF assms(6,3)] show ?thesis
  proof
    assume "mul64 (mul64 (round64 a) (Fin (real n))) (Fin (real n)) = PInf"
    then have "raw_estimate h = PInf"
      using S assms(1,4,5)
      by (simp add: raw_estimate_def Let_def to_float64_exact div64_def)
    then show ?thesis by simp
  next
    assume "\<exists>c. mul64 (mul64 (round64 a) (Fin (real n))) (Fin (real n)) = Fin c \<and> 0 \<le> c"
    then obtain c where c: "mul64 (mul64 (round64 a) (Fin (real n))) (Fin (real n)) = Fin c"
      "0 \<le> c" by blast
    have "raw_estimate h = round64 (c / S)"
      using S assms(1,4,5) c(1)
      by (simp add: raw_estimate_def Let_def to_float64_exact div64_def)
    moreover have "0 \<le> c / S" using c(2) S(2) by simp
    ultimately show ?thesis using round64_nonneg [of "c / S"] by simp
  qed
qed

text \<open>Linear counting does not decrease when zero registers get fewer.\<close>

lemma linear_counting_quotient:
  assumes "0 < u" and "u \<le> n" and "n < 2 ^ 53"
  shows "div64 (Fin (real n)) (to_float64 u) = Fin (rne (real n / real u)) \<and>
    1 \<le> rne (real n / real u) \<and> is_double (rne (real n / real u))"
proof -
  have u: "u < 2 ^ 53" using assms(2,3) by simp
  have a: "1 \<le> real n / real u" using assms(1,2) by (simp add: le_divide_eq)
  have "real n * 1 \<le> real n * real u" using assms(1) by (intro mult_left_mono) simp_all
  then have b: "real n / real u \<le> real n" using assms(1) by (simp add: divide_le_eq)
  from round64_between [OF is_double_one is_double_nat [OF assms(3)] a b]
  obtain d where d: "round64 (real n / real u) = Fin d" "1 \<le> d" by blast
  have "d = rne (real n / real u)" using d(1) by (rule round64_Fin_rne)
  moreover have "is_double d" using d(1) by (rule round64_is_double)
  ultimately show ?thesis using d assms(1) by (simp add: div64_def to_float64_exact [OF u])
qed

lemma monotone_logD:
  assumes "monotone_log ln64" and "is_double x" and "is_double y" and "0 < x" and "x \<le> y"
  shows "\<exists>l l'. ln64 x = Fin l \<and> ln64 y = Fin l' \<and> l \<le> l'"
  using assms unfolding monotone_log_def by blast

lemma linear_counting_mono:
  assumes lg: "monotone_log ln64" and v: "0 < v'" "v' \<le> v" "v \<le> n" and n: "n < 2 ^ 53"
    and fin: "mul64 (Fin (real n)) (Log ln64 (div64 (Fin (real n)) (to_float64 v'))) = Fin r"
  shows "\<exists>q. mul64 (Fin (real n)) (Log ln64 (div64 (Fin (real n)) (to_float64 v))) = Fin q \<and>
    0 \<le> q \<and> q \<le> r"
proof -
  define d where "d = rne (real n / real v)"
  define d' where "d' = rne (real n / real v')"
  have v0: "0 < v" and v'n: "v' \<le> n" using v by simp_all
  have qd: "div64 (Fin (real n)) (to_float64 v) = Fin d" "1 \<le> d" "is_double d"
    using linear_counting_quotient [OF v0 v(3) n] by (simp_all add: d_def)
  have qd': "div64 (Fin (real n)) (to_float64 v') = Fin d'" "1 \<le> d'" "is_double d'"
    using linear_counting_quotient [OF v(1) v'n n] by (simp_all add: d'_def)
  have "real n / real v \<le> real n / real v'"
    using v(1,2) by (intro divide_left_mono) simp_all
  then have dd: "d \<le> d'" unfolding d_def d'_def by (rule rne_mono)
  have l1: "ln64 1 = Fin 0" using lg unfolding monotone_log_def by simp
  from monotone_logD [OF lg is_double_one qd(3) _ qd(2)] l1
  obtain l where l: "ln64 d = Fin l" "0 \<le> l" by auto
  have "0 < d" using qd(2) by linarith
  from monotone_logD [OF lg qd(3) qd'(3) this dd] l(1)
  obtain l' where l': "ln64 d' = Fin l'" "l \<le> l'" by auto
  have "0 < d'" using qd'(2) by linarith
  then have "round64 (real n * l') = Fin r"
    using fin qd'(1) l'(1) by (simp add: mul64_def)
  moreover have "real n * l \<le> real n * l'" using l'(2) by (intro mult_left_mono) simp_all
  moreover have "0 \<le> real n * l" using l(2) by simp
  ultimately have "\<exists>q. round64 (real n * l) = Fin q \<and> 0 \<le> q \<and> q \<le> r"
    using round64_mono_Fin by blast
  then show ?thesis using qd(1) l(1) \<open>0 < d\<close> by (simp add: mul64_def)
qed

text \<open>The large-range correction, where its value is a number.\<close>

lemma large_range_finite:
  assumes "mul64 (fneg exp32) (Log ln64 (sub64 (Fin 1) (div64 (Fin e) exp32))) = Fin r"
  shows "\<exists>x y l. round64 (e / 2 ^ 32) = Fin x \<and> round64 (1 - x) = Fin y \<and> 0 < y \<and>
    ln64 y = Fin l \<and> round64 (- (2 ^ 32 * l)) = Fin r"
proof -
  have dx: "div64 (Fin e) exp32 = round64 (e / 2 ^ 32)"
    by (simp add: div64_def exp32_def Pow2_def)
  show ?thesis
  proof (cases "round64 (e / 2 ^ 32)")
    case x: (Fin x)
    have sy: "sub64 (Fin 1) (div64 (Fin e) exp32) = round64 (1 - x)"
      using dx x by (simp add: sub64_def fsub_def)
    show ?thesis
    proof (cases "round64 (1 - x)")
      case y: (Fin y)
      have ypos: "0 < y"
      proof (rule ccontr)
        assume "\<not> 0 < y"
        then consider "y < 0" | "y = 0" by linarith
        then show False
        proof cases
          case 1
          then show False using assms sy y by (simp add: mul64_def exp32_def Pow2_def)
        next
          case 2
          then show False using assms sy y
            by (simp add: mul64_def exp32_def Pow2_def inf_of_sign_def)
        qed
      qed
      show ?thesis
      proof (cases "ln64 y")
        case l: (Fin l)
        have "round64 (- (2 ^ 32 * l)) = Fin r"
          using assms sy y ypos l by (simp add: mul64_def exp32_def Pow2_def)
        then show ?thesis using x y ypos l by simp
      next
        case PInf
        then show ?thesis using assms sy y ypos
          by (simp add: mul64_def exp32_def Pow2_def inf_of_sign_def)
      next
        case NInf
        then show ?thesis using assms sy y ypos
          by (simp add: mul64_def exp32_def Pow2_def inf_of_sign_def)
      next
        case NaN
        then show ?thesis using assms sy y ypos by (simp add: mul64_def exp32_def Pow2_def)
      qed
    next
      case PInf
      then show ?thesis using assms sy
        by (simp add: mul64_def exp32_def Pow2_def inf_of_sign_def)
    next
      case NInf
      then show ?thesis using assms sy by (simp add: mul64_def exp32_def Pow2_def)
    next
      case NaN
      then show ?thesis using assms sy by (simp add: mul64_def exp32_def Pow2_def)
    qed
  next
    case PInf
    then show ?thesis using assms dx
      by (simp add: sub64_def fsub_def mul64_def exp32_def Pow2_def)
  next
    case NInf
    then show ?thesis using assms dx
      by (simp add: sub64_def fsub_def mul64_def exp32_def Pow2_def inf_of_sign_def)
  next
    case NaN
    then show ?thesis using assms dx
      by (simp add: sub64_def fsub_def mul64_def exp32_def Pow2_def)
  qed
qed

lemma large_range_mono:
  assumes lg: "monotone_log ln64" and e: "0 \<le> e" "e \<le> e'"
    and fin: "mul64 (fneg exp32) (Log ln64 (sub64 (Fin 1) (div64 (Fin e') exp32))) = Fin r"
  shows "\<exists>q. mul64 (fneg exp32) (Log ln64 (sub64 (Fin 1) (div64 (Fin e) exp32))) = Fin q \<and>
    0 \<le> q \<and> q \<le> r"
proof -
  from large_range_finite [OF fin]
  obtain x' y' l' where x': "round64 (e' / 2 ^ 32) = Fin x'" and y': "round64 (1 - x') = Fin y'"
    and y'pos: "0 < y'" and l': "ln64 y' = Fin l'" and r: "round64 (- (2 ^ 32 * l')) = Fin r"
    by blast
  have "e / 2 ^ 32 \<le> e' / 2 ^ 32" using e(2) by (simp add: divide_right_mono)
  moreover have "0 \<le> e / 2 ^ 32" using e(1) by simp
  ultimately obtain x where x: "round64 (e / 2 ^ 32) = Fin x" "0 \<le> x" "x \<le> x'"
    using round64_mono_Fin [OF _ x'] by blast
  define y where "y = rne (1 - x)"
  have dy': "is_double y'" using y' by (rule round64_is_double)
  have "y' = rne (1 - x')" using y' by (rule round64_Fin_rne)
  moreover have "rne (1 - x') \<le> rne (1 - x)" using x(3) by (intro rne_mono) simp
  ultimately have lo: "y' \<le> y" by (simp add: y_def)
  have "rne (1 - x) \<le> rne 1" using x(2) by (intro rne_mono) simp
  then have hi: "y \<le> 1" using is_double_rne [OF is_double_one] by (simp add: y_def)
  have ry: "round64 (1 - x) = Fin y"
    using lo hi y'pos unfolding round64_def y_def by simp
  then have dy: "is_double y" by (rule round64_is_double)
  have ypos: "0 < y" using lo y'pos by linarith
  from monotone_logD [OF lg dy' dy y'pos lo] l'
  obtain l where l: "ln64 y = Fin l" "l' \<le> l" by auto
  have l1: "ln64 1 = Fin 0" using lg unfolding monotone_log_def by simp
  from monotone_logD [OF lg dy is_double_one ypos hi] l(1) l1
  have l0: "l \<le> 0" by auto
  have "- (2 ^ 32 * l) \<le> - (2 ^ 32 * l')" using l(2) by simp
  moreover have "0 \<le> - (2 ^ 32 * l)" using l0 by (simp add: mult_le_0_iff)
  ultimately have "\<exists>q. round64 (- (2 ^ 32 * l)) = Fin q \<and> 0 \<le> q \<and> q \<le> r"
    using round64_mono_Fin [OF _ r] by blast
  moreover have "mul64 (fneg exp32) (Log ln64 (sub64 (Fin 1) (div64 (Fin e) exp32))) =
      round64 (- (2 ^ 32 * l))"
    using x(1) ry ypos l(1)
    by (simp add: div64_def sub64_def fsub_def mul64_def exp32_def Pow2_def)
  ultimately show ?thesis by simp
qed

text \<open>
  From \<open>2 ^ 27\<close> on, the large-range correction is not below the raw estimate it
  replaces.
\<close>

lemma large_range_above_raw:
  assumes acc: "accurate_log ln64" and dbl: "is_double e" and big: "2 ^ 27 \<le> e"
    and fin: "mul64 (fneg exp32) (Log ln64 (sub64 (Fin 1) (div64 (Fin e) exp32))) = Fin r"
  shows "e \<le> r"
proof -
  from large_range_finite [OF fin]
  obtain x y l where x: "round64 (e / 2 ^ 32) = Fin x" and y: "round64 (1 - x) = Fin y"
    and ypos: "0 < y" and l: "ln64 y = Fin l" and r: "round64 (- (2 ^ 32 * l)) = Fin r"
    by blast
  define z where "z = e / 2 ^ 32"
  have z: "1 / 32 \<le> z" using big by (simp add: z_def)
  have "(2::real) powr (- 1022) \<le> 2 powr (of_int (- 5))"
    by (subst powr_le_cancel_iff) simp_all
  also have "\<dots> = 1 / 32" by (simp add: powr_minus_divide)
  finally have "2 powr (- 1022) \<le> z" using z by linarith
  then have rel: "\<bar>rne z - z\<bar> \<le> z / 2 ^ 53" by (rule rne_relative_error)
  have xz: "x = rne z" using x unfolding z_def by (rule round64_Fin_rne)
  have d32: "is_double (1 / 32)" using is_double_dyadic [of 1 5] by simp
  have "rne (1 / 32) \<le> rne z" using z by (rule rne_mono)
  then have x32: "1 / 32 \<le> x" using is_double_rne [OF d32] xz by simp
  have yx: "y = rne (1 - x)" using y by (rule round64_Fin_rne)
  have d31: "is_double (31 / 32)" using is_double_dyadic [of 31 5] by simp
  have "rne (1 - x) \<le> rne (31 / 32)" using x32 by (intro rne_mono) simp
  then have y31: "y \<le> 31 / 32" using is_double_rne [OF d31] yx by simp
  have pos: "0 < 1 - x"
  proof (rule ccontr)
    assume "\<not> 0 < 1 - x"
    then have "rne (1 - x) \<le> rne 0" by (intro rne_mono) simp
    then show False using ypos yx by (simp add: rne_def)
  qed
  have "1 - x < 1" using x32 by simp
  from ulp_below_one [OF pos this] rne_error [of "1 - x"]
  have ey: "\<bar>y - (1 - x)\<bar> \<le> 1 / 2 ^ 54" using yx by simp
  have dy: "is_double y" using y by (rule round64_is_double)
  from acc dy ypos y31 l have la: "l \<le> (y - 1) * (1 + 1 / 256)"
    unfolding accurate_log_def by fastforce
  have ey1: "y \<le> 1 - x + 1 / 2 ^ 54" using ey by linarith
  have rel1: "z - z / 2 ^ 53 \<le> rne z" using rel by linarith
  have "z \<le> - l" using la ey1 rel1 z xz by simp
  then have "e \<le> - (2 ^ 32 * l)" by (simp add: z_def field_simps)
  then have "rne e \<le> rne (- (2 ^ 32 * l))" by (rule rne_mono)
  then show ?thesis using is_double_rne [OF dbl] round64_Fin_rne [OF r] by simp
qed

text \<open>
  The estimate of \<^verbatim>\<open>Count\<close> does not decrease when registers grow, unless the smaller
  array is estimated by linear counting and the larger one is not.
\<close>

lemma Count_estimate_mono:
  assumes rel: "list_all2 (\<le>) (registers g) (registers h)"
    and mg: "unat (m g) = n" and mh: "unat (m h) = n" and len: "length (registers g) = n"
    and n: "0 < n" "n < 2 ^ 53"
    and al: "alpha g = Fin a" "alpha h = Fin a" "0 \<le> a"
    and lg: "monotone_log ln64" and acc: "accurate_log ln64"
    and fin: "Count_estimate ln64 h = Fin r"
    and nl: "\<not> (uses_linear_counting g \<and> \<not> uses_linear_counting h)"
  shows "\<exists>q. Count_estimate ln64 g = Fin q \<and> 0 \<le> q \<and> q \<le> r"
proof -
  have lenh: "length (registers h) = n" using rel len by (simp add: list_all2_lengthD)
  from raw_estimate_cases [OF mh lenh n al(2,3)] Count_estimate_PInf [OF _ mh n(2), of ln64] fin
  obtain e' where e': "raw_estimate h = Fin e'" by auto
  from raw_estimate_mono [OF rel mg mh len n al e']
  obtain e where e: "raw_estimate g = Fin e" "0 \<le> e" "e \<le> e'" by blast
  obtain t where t: "mul64 (round64 (1 / 30)) exp32 = Fin t" "2 ^ 27 \<le> t"
    using large_threshold by blast
  note Eg = Count_estimate_unfold [OF e(1) mg n(2) t(1), of ln64]
  note Eh = Count_estimate_unfold [OF e' mh n(2) t(1), of ln64]
  note Lg = uses_linear_counting_unfold [OF e(1) mg n(2)]
  note Lh = uses_linear_counting_unfold [OF e' mh n(2)]
  have v: "zero_registers (registers h) \<le> zero_registers (registers g)"
    using rel by (rule zero_registers_mono)
  have vn: "zero_registers (registers g) \<le> n"
    using zero_registers_le [of "registers g"] len by simp
  show ?thesis
  proof (cases "uses_linear_counting h")
    case True
    then have a: "e' \<le> rne (5 / 2 * real n)" "0 < zero_registers (registers h)"
      using Lh by simp_all
    then have b: "e \<le> rne (5 / 2 * real n)" "0 < zero_registers (registers g)"
      using e(3) v by linarith+
    have "mul64 (Fin (real n))
        (Log ln64 (div64 (Fin (real n)) (to_float64 (zero_registers (registers h))))) = Fin r"
      using fin Eh a by simp
    from linear_counting_mono [OF lg a(2) v vn n(2) this] show ?thesis
      using Eg b by simp
  next
    case False
    then have ng: "\<not> uses_linear_counting g" using nl by blast
    have Fh: "\<not> (e' \<le> rne (5 / 2 * real n) \<and> 0 < zero_registers (registers h))"
      using False Lh by simp
    have Fg: "\<not> (e \<le> rne (5 / 2 * real n) \<and> 0 < zero_registers (registers g))"
      using ng Lg by simp
    show ?thesis
    proof (cases "rne (5 / 2 * real n) < e' \<and> t < e'")
      case True
      then have R: "mul64 (fneg exp32) (Log ln64 (sub64 (Fin 1) (div64 (Fin e') exp32))) = Fin r"
        using fin Eh by simp
      show ?thesis
      proof (cases "rne (5 / 2 * real n) < e \<and> t < e")
        case True
        then have "Count_estimate ln64 g =
            mul64 (fneg exp32) (Log ln64 (sub64 (Fin 1) (div64 (Fin e) exp32)))"
          using Eg by simp
        then show ?thesis using large_range_mono [OF lg e(2,3) R] by simp
      next
        case False
        then have "Count_estimate ln64 g = Fin e" using Eg Fg by auto
        moreover have "2 ^ 27 \<le> e'" using True t(2) by linarith
        then have "e' \<le> r"
          using large_range_above_raw [OF acc raw_estimate_is_double [OF e'] _ R] by simp
        ultimately show ?thesis using e(2,3) by simp
      qed
    next
      case False
      then have "Count_estimate ln64 h = Fin e'" using Eh Fh by auto
      then have r: "r = e'" using fin by simp
      have "Count_estimate ln64 g = Fin e" using Eg Fg False e(3) by auto
      then show ?thesis using e(2,3) r by simp
    qed
  qed
qed

lemma to_uint64_floor:
  assumes "0 \<le> x" and "x < 2 ^ 64"
  shows "uint (to_uint64 impl (Fin x)) = \<lfloor>x\<rfloor>"
proof -
  have "0 \<le> \<lfloor>x\<rfloor>" using assms(1) by simp
  moreover have "\<lfloor>x\<rfloor> < 2 ^ 64" using assms(2) by (simp add: floor_less_iff)
  ultimately show ?thesis using assms(1)
    by (simp add: trunc_def uint_word_of_int take_bit_int_eq_self not_less)
qed

lemma to_uint64_mono:
  assumes "0 \<le> x" and "x \<le> y" and "y < 2 ^ 64"
  shows "to_uint64 impl (Fin x) \<le> to_uint64 impl (Fin y)"
proof -
  have "uint (to_uint64 impl (Fin x)) = \<lfloor>x\<rfloor>"
    by (rule to_uint64_floor) (use assms in simp_all)
  moreover have "uint (to_uint64 impl (Fin y)) = \<lfloor>y\<rfloor>"
    by (rule to_uint64_floor) (use assms in simp_all)
  moreover have "\<lfloor>x\<rfloor> \<le> \<lfloor>y\<rfloor>" using assms(2) by (rule floor_mono)
  ultimately show ?thesis by (simp add: word_le_def)
qed

lemma Count_mono:
  assumes "list_all2 (\<le>) (registers g) (registers h)"
    and "unat (m g) = n" and "unat (m h) = n" and "length (registers g) = n"
    and "0 < n" and "n < 2 ^ 53"
    and "alpha g = Fin a" and "alpha h = Fin a" and "0 \<le> a"
    and "monotone_log ln64" and "accurate_log ln64"
    and "Count_estimate ln64 h = Fin r" and "r < 2 ^ 64"
    and "\<not> (uses_linear_counting g \<and> \<not> uses_linear_counting h)"
  shows "Count ln64 impl g \<le> Count ln64 impl h"
proof -
  from Count_estimate_mono [OF assms(1-12) assms(14)]
  obtain q where q: "Count_estimate ln64 g = Fin q" "0 \<le> q" "q \<le> r" by blast
  have "to_uint64 impl (Fin q) \<le> to_uint64 impl (Fin r)"
    using q(2,3) assms(13) by (rule to_uint64_mono)
  then show ?thesis unfolding Count_def q(1) assms(12) .
qed

lemma list_all2_max_left:
  fixes xs ys :: "8 word list"
  assumes "length xs = length ys"
  shows "list_all2 (\<le>) xs (map2 max xs ys)"
  using assms by (induction xs ys rule: list_induct2) simp_all

lemma list_all2_max_right:
  fixes xs ys :: "8 word list"
  assumes "length xs = length ys"
  shows "list_all2 (\<le>) ys (map2 max xs ys)"
  using assms by (induction xs ys rule: list_induct2) simp_all

subsection \<open>The correctly rounded logarithm\<close>

lemma ln_2_le_1: "ln (2::real) \<le> 1"
  using ln_le_minus_one [of "2::real"] by simp

lemma is_double_pos_lower:
  assumes "is_double x" and "0 < x"
  shows "2 powr (- 1074) \<le> x"
proof -
  from assms(1) obtain n k where k: "- 1074 \<le> k" and x: "x = of_int n * 2 powr of_int k"
    unfolding is_double_def by blast
  have "0 < real_of_int n" using assms(2) x by (simp add: zero_less_mult_iff)
  then have "1 \<le> n" by simp
  then have n: "1 \<le> real_of_int n" by simp
  have "(2::real) powr (- 1074) \<le> 2 powr of_int k"
    using k by (subst powr_le_cancel_iff) simp_all
  also have "\<dots> = 1 * 2 powr of_int k" by simp
  also have "\<dots> \<le> real_of_int n * 2 powr of_int k"
    using n by (intro mult_right_mono) simp_all
  finally show ?thesis using x by simp
qed

lemma ln_double_bounds:
  assumes "is_double x" and "0 < x"
  shows "- 1074 \<le> ln x" and "ln x \<le> 1024"
proof -
  have "ln ((2::real) powr (- 1074)) \<le> ln x"
    using is_double_pos_lower [OF assms] assms(2) by (subst ln_le_cancel_iff) simp_all
  moreover have "ln ((2::real) powr (- 1074)) = - 1074 * ln 2" by (simp add: ln_powr)
  ultimately show "- 1074 \<le> ln x" using ln_2_le_1 by simp
  have "x < 2 ^ 1024" using is_double_abs_less [OF assms(1)] by simp
  then have "ln x \<le> ln ((2::real) ^ 1024)" using assms(2) by (subst ln_le_cancel_iff) simp_all
  moreover have "ln ((2::real) ^ 1024) = real 1024 * ln 2" by (subst ln_realpow) simp_all
  ultimately show "ln x \<le> 1024" using ln_2_le_1 by simp
qed

lemma correctly_rounded_ln_finite:
  assumes "is_double x" and "0 < x"
  shows "correctly_rounded_ln x = Fin (rne (ln x))"
proof -
  have a: "is_double (- 1074)" using is_double_minus [OF is_double_nat [of 1074]] by simp
  have b: "is_double 1024" using is_double_nat [of 1024] by simp
  from round64_between [OF a b ln_double_bounds [OF assms]]
  obtain r where "round64 (ln x) = Fin r" by blast
  then show ?thesis using round64_Fin_rne by (simp add: correctly_rounded_ln_def)
qed

lemma correctly_rounded_ln_monotone: "monotone_log correctly_rounded_ln"
proof -
  have "correctly_rounded_ln 1 = Fin 0"
    by (simp add: correctly_rounded_ln_def round64_exact is_double_zero)
  moreover have "\<exists>l l'. correctly_rounded_ln x = Fin l \<and> correctly_rounded_ln y = Fin l' \<and> l \<le> l'"
    if "is_double x \<and> is_double y \<and> 0 < x \<and> x \<le> y" for x y
  proof -
    have "ln x \<le> ln y" using that by simp
    then have "rne (ln x) \<le> rne (ln y)" by (rule rne_mono)
    moreover have "correctly_rounded_ln x = Fin (rne (ln x))"
      using that by (intro correctly_rounded_ln_finite) simp_all
    moreover have "correctly_rounded_ln y = Fin (rne (ln y))"
      using that by (intro correctly_rounded_ln_finite) simp_all
    ultimately show ?thesis by simp
  qed
  ultimately show ?thesis unfolding monotone_log_def by blast
qed

lemma ln_below_one:
  fixes y :: real
  assumes "0 < y" and "y \<le> 31 / 32"
  shows "ln y \<le> (y - 1) * (129 / 128)"
proof -
  define s where "s = sqrt y"
  have s0: "0 < s" using assms(1) by (simp add: s_def)
  have sy: "s * s = y" using assms(1) by (simp add: s_def)
  have s1: "s \<le> 127 / 129"
  proof (rule ccontr)
    assume "\<not> s \<le> 127 / 129"
    then have "127 / 129 < s" by simp
    then have "(127 / 129) * (127 / 129) < s * s" by (intro mult_strict_mono) simp_all
    then show False using sy assms(2) by simp
  qed
  have "ln y = 2 * ln s" using assms(1) by (simp add: s_def ln_sqrt)
  also have "\<dots> \<le> 2 * (s - 1)" using ln_le_minus_one [OF s0] by simp
  also have "\<dots> \<le> (s * s - 1) * (129 / 128)"
  proof -
    have "0 \<le> (1 - s) * (127 / 129 - s)" using s1 by (intro mult_nonneg_nonneg) simp_all
    then have "0 \<le> 129 / 128 * ((1 - s) * (127 / 129 - s))" by simp
    moreover have "(s * s - 1) * (129 / 128) - 2 * (s - 1) =
        129 / 128 * ((1 - s) * (127 / 129 - s))"
      by (simp add: field_simps)
    ultimately show ?thesis by linarith
  qed
  finally show ?thesis using sy by simp
qed

lemma correctly_rounded_ln_accurate: "accurate_log correctly_rounded_ln"
proof -
  have "\<exists>l. correctly_rounded_ln y = Fin l \<and> l \<le> (y - 1) * (1 + 1 / 256)"
    if "is_double y \<and> 0 < y \<and> y \<le> 31 / 32" for y
  proof -
    define w where "w = - ln y"
    have b: "ln y \<le> (y - 1) * (129 / 128)" using that by (intro ln_below_one) simp_all
    then have w: "(1 - y) * (129 / 128) \<le> w" by (simp add: w_def algebra_simps)
    then have w32: "1 / 32 \<le> w" using that by simp
    have "(2::real) powr (- 1022) \<le> 2 powr (of_int (- 5))"
      by (subst powr_le_cancel_iff) simp_all
    also have "\<dots> = 1 / 32" by (simp add: powr_minus_divide)
    finally have "2 powr (- 1022) \<le> w" using w32 by linarith
    then have "\<bar>rne w - w\<bar> \<le> w / 2 ^ 53" by (rule rne_relative_error)
    then have "w - w / 2 ^ 53 \<le> rne w" by linarith
    moreover have "rne (ln y) = - rne w" by (simp add: w_def rne_minus)
    ultimately have "rne (ln y) \<le> (y - 1) * (1 + 1 / 256)" using w that by simp
    moreover have "correctly_rounded_ln y = Fin (rne (ln y))"
      using that by (intro correctly_rounded_ln_finite) simp_all
    ultimately show ?thesis by simp
  qed
  then show ?thesis unfolding accurate_log_def by blast
qed

subsection \<open>An all-zero register array\<close>

lemma is_double_twice_nat:
  assumes "n < 2 ^ 53"
  shows "is_double (2 * real n)"
proof -
  have "\<bar>int n\<bar> < 2 ^ 53" using assms by (simp add: of_nat_less_numeral_power_cancel_iff)
  moreover have "2 * real n = of_int (int n) * 2 powr of_int 1" by simp
  moreover have "- 1074 \<le> (1::int)" "(1::int) \<le> 971" by simp_all
  ultimately show ?thesis unfolding is_double_def by blast
qed

lemma raw_estimate_zeros:
  assumes n: "0 < n" "n < 2 ^ 53" and m: "unat (m h) = n" and regs: "registers h = replicate n 0"
    and al: "alpha h = Fin a" "0 \<le> a" "a \<le> 2"
  shows "\<exists>e. raw_estimate h = Fin e \<and> 0 \<le> e \<and> e \<le> rne (5 / 2 * real n)"
proof -
  have n1: "1 \<le> real n" using n(1) by simp
  have n53: "real n < 2 ^ 53" using n(2) by (rule real_less_2_53)
  have d2: "is_double 2" using is_double_nat [of 2] by simp
  from round64_between [OF is_double_zero d2 al(2,3)]
  obtain a0 where a0: "round64 a = Fin a0" "0 \<le> a0" "a0 \<le> 2" by blast
  have "0 \<le> a0 * real n" using a0(2) by simp
  moreover have "a0 * real n \<le> 2 * real n" using a0(3) by (intro mult_right_mono) simp_all
  ultimately obtain r1 where r1: "round64 (a0 * real n) = Fin r1" "0 \<le> r1" "r1 \<le> 2 * real n"
    using round64_between [OF is_double_zero is_double_twice_nat [OF n(2)]] by blast
  have le: "r1 * real n \<le> 2 * real n * real n" using r1(3) by (intro mult_right_mono) simp_all
  have "real n * real n \<le> 2 ^ 53 * 2 ^ 53" using n53 by (intro mult_mono) simp_all
  then have "2 * real n * real n \<le> 2 ^ 107" by simp
  then have up107: "r1 * real n \<le> 2 ^ 107" using le by linarith
  have d107: "is_double (2 ^ 107)" by (rule is_double_pow2) simp
  have "0 \<le> r1 * real n" using r1(2) by simp
  from round64_between [OF is_double_zero d107 this up107]
  obtain r2 where r2: "round64 (r1 * real n) = Fin r2" "0 \<le> r2" by blast
  have "(2::real) powr (- 1022) \<le> 2 powr 0" by (subst powr_le_cancel_iff) simp_all
  also have "\<dots> \<le> 2 * real n * real n"
  proof -
    have "1 * 1 \<le> real n * real n" using n1 by (intro mult_mono) simp_all
    then show ?thesis by simp
  qed
  finally have "\<bar>rne (2 * real n * real n) - 2 * real n * real n\<bar> \<le> 2 * real n * real n / 2 ^ 53"
    by (rule rne_relative_error)
  then have "rne (2 * real n * real n) \<le> 2 * real n * real n + 2 * real n * real n / 2 ^ 53"
    by linarith
  moreover have "r2 \<le> rne (2 * real n * real n)"
    using rne_mono [OF le] round64_Fin_rne [OF r2(1)] by simp
  ultimately have "r2 \<le> (2 * real n + 2 * real n / 2 ^ 53) * real n"
    by (simp add: algebra_simps)
  then have "r2 / real n \<le> 2 * real n + 2 * real n / 2 ^ 53"
    using n(1) by (simp add: divide_le_eq)
  also have "\<dots> \<le> 5 / 2 * real n" by simp
  finally have up: "r2 / real n \<le> 5 / 2 * real n" .
  have "5 / 2 * real n \<le> 2 ^ 55" using n53 by simp
  then have up55: "r2 / real n \<le> 2 ^ 55" using up by linarith
  have d55: "is_double (2 ^ 55)" by (rule is_double_pow2) simp
  have "0 \<le> r2 / real n" using r2(2) by simp
  from round64_between [OF is_double_zero d55 this up55]
  obtain e where e: "round64 (r2 / real n) = Fin e" "0 \<le> e" by blast
  have "e \<le> rne (5 / 2 * real n)" using rne_mono [OF up] round64_Fin_rne [OF e(1)] by simp
  moreover have "harmonic_sum (registers h) = Fin (real n)"
    using harmonic_sum_replicate [OF n(2), of 0] regs by simp
  then have "raw_estimate h = Fin e"
    using a0(1) r1(1) r2(1) e(1) m n al(1)
    by (simp add: raw_estimate_def Let_def to_float64_exact mul64_def div64_def)
  ultimately show ?thesis using e(2) by simp
qed

lemma Count_all_zero:
  assumes "m h \<noteq> 0" and "unat (m h) < 2 ^ 53" and "registers h = replicate (unat (m h)) 0"
    and "alpha h = Fin a" and "0 \<le> a" and "a \<le> 2" and "ln64 1 = Fin 0"
  shows "Count ln64 impl h = 0"
proof -
  define n where "n = unat (m h)"
  have n: "0 < n" "n < 2 ^ 53" using assms(1,2) by (simp_all add: n_def unat_gt_0)
  have regs: "registers h = replicate n 0" using assms(3) by (simp add: n_def)
  from raw_estimate_zeros [OF n _ regs assms(4-6)]
  obtain e where e: "raw_estimate h = Fin e" "e \<le> rne (5 / 2 * real n)" by (auto simp: n_def)
  obtain t where t: "mul64 (round64 (1 / 30)) exp32 = Fin t" using large_threshold by blast
  have v: "zero_registers (registers h) = n" by (simp add: regs zero_registers_eq)
  have "div64 (Fin (real n)) (to_float64 n) = Fin 1"
    using n by (simp add: to_float64_exact div64_def round64_exact is_double_one)
  then have "Count_estimate ln64 h = Fin 0"
    using Count_estimate_unfold [OF e(1) _ n(2) t, of ln64] e(2) v n(1) assms(7)
    by (simp add: n_def mul64_def round64_exact is_double_zero)
  then show ?thesis by (simp add: Count_def trunc_def)
qed

subsection \<open>Estimators of 16 registers with the bias 0.673\<close>

lemma numerator_16:
  "\<exists>c. mul64 (mul64 (round64 (673 / 1000)) (Fin 16)) (Fin 16) = Fin c \<and> 172 \<le> c \<and> c \<le> 174"
proof -
  have d1: "is_double (43 / 64)" using is_double_dyadic [of 43 6] by simp
  have d2: "is_double (87 / 128)" using is_double_dyadic [of 87 7] by simp
  have "(43::real) / 64 \<le> 673 / 1000" "(673::real) / 1000 \<le> 87 / 128" by simp_all
  from round64_between [OF d1 d2 this]
  obtain a where a: "round64 (673 / 1000) = Fin a" "43 / 64 \<le> a" "a \<le> 87 / 128" by blast
  have d3: "is_double (43 / 4)" using is_double_dyadic [of 43 2] by simp
  have d4: "is_double (87 / 8)" using is_double_dyadic [of 87 3] by simp
  have "43 / 4 \<le> a * 16" "a * 16 \<le> 87 / 8" using a(2,3) by simp_all
  from round64_between [OF d3 d4 this]
  obtain r where r: "round64 (a * 16) = Fin r" "43 / 4 \<le> r" "r \<le> 87 / 8" by blast
  have d5: "is_double 172" using is_double_nat [of 172] by simp
  have d6: "is_double 174" using is_double_nat [of 174] by simp
  have "172 \<le> r * 16" "r * 16 \<le> 174" using r(2,3) by simp_all
  from round64_between [OF d5 d6 this]
  obtain c where c: "round64 (r * 16) = Fin c" "172 \<le> c" "c \<le> 174" by blast
  show ?thesis using a(1) r(1) c by (simp add: mul64_def)
qed

lemma raw_estimate_16:
  assumes "harmonic_sum regs = Fin S" and "0 < S"
  shows "\<exists>c. raw_estimate \<lparr>m = 16, b = 4, alpha = Fin 0.673, registers = regs\<rparr> = round64 (c / S)
    \<and> 172 \<le> c \<and> c \<le> 174"
proof -
  from numerator_16 obtain c where
    c: "mul64 (mul64 (round64 (673 / 1000)) (Fin 16)) (Fin 16) = Fin c" "172 \<le> c" "c \<le> 174"
    by blast
  have "raw_estimate \<lparr>m = 16, b = 4, alpha = Fin 0.673, registers = regs\<rparr> = round64 (c / S)"
    using c(1) assms by (simp add: raw_estimate_def Let_def to_float64_exact div64_def)
  then show ?thesis using c(2,3) by blast
qed

lemma small_threshold_16: "rne (5 / 2 * real 16) = 40"
  using is_double_rne [OF is_double_nat [of 40]] by simp

text \<open>Sixteen registers of value 1: the raw estimate, 21.5.\<close>

lemma Count_sixteen_ones:
  "Count ln64 impl \<lparr>m = 16, b = 4, alpha = Fin 0.673, registers = replicate 16 1\<rparr> = 21"
proof -
  let ?h = "\<lparr>m = 16, b = 4, alpha = Fin 0.673, registers = replicate 16 1\<rparr>"
  have S: "harmonic_sum (replicate 16 1) = Fin 8"
    using harmonic_sum_replicate [of 16 1] by simp
  from raw_estimate_16 [OF S]
  obtain c where c: "raw_estimate ?h = round64 (c / 8)" "172 \<le> c" "c \<le> 174" by auto
  have d1: "is_double (43 / 2)" using is_double_dyadic [of 43 1] by simp
  have d2: "is_double (87 / 4)" using is_double_dyadic [of 87 2] by simp
  have "43 / 2 \<le> c / 8" "c / 8 \<le> 87 / 4" using c(2,3) by simp_all
  from round64_between [OF d1 d2 this]
  obtain e where e: "round64 (c / 8) = Fin e" "43 / 2 \<le> e" "e \<le> 87 / 4" by blast
  obtain t where t: "mul64 (round64 (1 / 30)) exp32 = Fin t" using large_threshold by blast
  have raw: "raw_estimate ?h = Fin e" using c(1) e(1) by simp
  have z: "zero_registers (registers ?h) = 0" by (simp add: zero_registers_eq)
  have "Count_estimate ln64 ?h = Fin e"
    using Count_estimate_unfold [OF raw _ _ t, of 16 ln64] e(3) z small_threshold_16 by simp
  moreover have "\<lfloor>e\<rfloor> = 21" using e(2,3) by (simp add: floor_eq_iff)
  ultimately show ?thesis using e(2) by (simp add: Count_def trunc_def)
qed

text \<open>One zero register and fifteen of value 1: linear counting, \<open>16 * ln 16\<close>.\<close>

lemma ln_16_bounds: "2 \<le> ln (16::real)" "ln (16::real) \<le> 4"
proof -
  have "ln (1 / 2 :: real) \<le> 1 / 2 - 1" by (rule ln_le_minus_one) simp
  moreover have "ln (1 / 2 :: real) = - ln 2" by (simp add: ln_div)
  ultimately have a: "1 / 2 \<le> ln (2::real)" by simp
  have "ln (16::real) = ln (2 ^ 4)" by simp
  also have "\<dots> = 4 * ln 2" by (subst ln_realpow) simp_all
  finally have "ln (16::real) = 4 * ln 2" .
  then show "2 \<le> ln (16::real)" "ln (16::real) \<le> 4"
    using a ln_2_le_1 by simp_all
qed

lemma Count_one_zero_register:
  "32 \<le> uint (Count correctly_rounded_ln impl
     \<lparr>m = 16, b = 4, alpha = Fin 0.673, registers = 0 # replicate 15 1\<rparr>)"
proof -
  let ?h = "\<lparr>m = 16, b = 4, alpha = Fin 0.673, registers = 0 # replicate 15 1\<rparr>"
  have "add64 (Fin 0) (Fin (1 / 2 ^ unat (0 :: 8 word))) = Fin (real 2 / 2 ^ unat (1 :: 8 word))"
    by (simp add: add64_Fin round64_exact is_double_one)
  then have S: "harmonic_sum (0 # replicate 15 1) = Fin (17 / 2)"
    using harmonic_fold_replicate [of 2 15 1] by (simp add: harmonic_sum_fold)
  from raw_estimate_16 [OF S]
  obtain c where c: "raw_estimate ?h = round64 (c / (17 / 2))" "172 \<le> c" "c \<le> 174" by auto
  have d1: "is_double 20" using is_double_nat [of 20] by simp
  have d2: "is_double 21" using is_double_nat [of 21] by simp
  have "20 \<le> c / (17 / 2)" "c / (17 / 2) \<le> 21" using c(2,3) by simp_all
  from round64_between [OF d1 d2 this]
  obtain e where e: "round64 (c / (17 / 2)) = Fin e" "20 \<le> e" "e \<le> 21" by blast
  obtain t where t: "mul64 (round64 (1 / 30)) exp32 = Fin t" using large_threshold by blast
  have raw: "raw_estimate ?h = Fin e" using c(1) e(1) by simp
  have z: "zero_registers (registers ?h) = 1" by (simp add: zero_registers_eq)
  have d16: "is_double 16" using is_double_nat [of 16] by simp
  have d2': "is_double 2" using is_double_nat [of 2] by simp
  have d4: "is_double 4" using is_double_nat [of 4] by simp
  from round64_between [OF d2' d4 ln_16_bounds]
  obtain l where l: "round64 (ln 16) = Fin l" "2 \<le> l" "l \<le> 4" by blast
  have d32: "is_double 32" using is_double_nat [of 32] by simp
  have d64: "is_double 64" using is_double_nat [of 64] by simp
  have "32 \<le> 16 * l" "16 * l \<le> 64" using l(2,3) by simp_all
  from round64_between [OF d32 d64 this]
  obtain q where q: "round64 (16 * l) = Fin q" "32 \<le> q" "q \<le> 64" by blast
  have "div64 (Fin 16) (to_float64 1) = Fin 16"
    by (simp add: to_float64_exact div64_def round64_exact d16)
  then have "Count_estimate correctly_rounded_ln ?h = Fin q"
    using Count_estimate_unfold [OF raw _ _ t, of 16 correctly_rounded_ln] e(3) z
      small_threshold_16 l(1) q(1)
    by (simp add: correctly_rounded_ln_def mul64_def)
  moreover have "uint (to_uint64 impl (Fin q)) = \<lfloor>q\<rfloor>"
    using q(2,3) by (intro to_uint64_floor) simp_all
  moreover have "32 \<le> \<lfloor>q\<rfloor>" using q(2) by (simp add: le_floor_iff)
  ultimately show ?thesis by (simp add: Count_def)
qed

text \<open>
  Sixteen registers at the highest rank, 29: the raw estimate is above \<open>2 ^ 32\<close>, the
  large-range correction takes the logarithm of a negative number, and the estimate is
  NaN. Without registers the raw estimate is \<open>0 / 0\<close>.
\<close>

lemma Count_estimate_sixteen_at_29:
  "Count_estimate ln64 \<lparr>m = 16, b = 4, alpha = Fin 0.673, registers = replicate 16 29\<rparr> = NaN"
proof -
  let ?h = "\<lparr>m = 16, b = 4, alpha = Fin 0.673, registers = replicate 16 29\<rparr>"
  have S: "harmonic_sum (replicate 16 29) = Fin (1 / 2 ^ 25)"
    using harmonic_sum_replicate [of 16 29] by simp
  from raw_estimate_16 [OF S]
  obtain c where c: "raw_estimate ?h = round64 (c / (1 / 2 ^ 25))" "172 \<le> c" "c \<le> 174" by auto
  have d1: "is_double (real (172 * 2 ^ 25))" by (rule is_double_nat) simp
  have d2: "is_double (real (174 * 2 ^ 25))" by (rule is_double_nat) simp
  have "real (172 * 2 ^ 25) \<le> c / (1 / 2 ^ 25)" "c / (1 / 2 ^ 25) \<le> real (174 * 2 ^ 25)"
    using c(2,3) by simp_all
  from round64_between [OF d1 d2 this]
  obtain e where e: "round64 (c / (1 / 2 ^ 25)) = Fin e" "172 * 2 ^ 25 \<le> e" "e \<le> 174 * 2 ^ 25"
    by auto
  obtain t where t: "mul64 (round64 (1 / 30)) exp32 = Fin t" "t \<le> 2 ^ 28"
    using large_threshold by blast
  have raw: "raw_estimate ?h = Fin e" using c(1) e(1) by simp
  have d3: "is_double (43 / 32)" using is_double_dyadic [of 43 5] by simp
  have d4: "is_double (87 / 64)" using is_double_dyadic [of 87 6] by simp
  have "43 / 32 \<le> e / 2 ^ 32" "e / 2 ^ 32 \<le> 87 / 64" using e(2,3) by simp_all
  from round64_between [OF d3 d4 this]
  obtain x where x: "round64 (e / 2 ^ 32) = Fin x" "43 / 32 \<le> x" "x \<le> 87 / 64" by blast
  have d5: "is_double (- (23 / 64))" using is_double_minus [OF is_double_dyadic [of 23 6]] by simp
  have d6: "is_double (- (11 / 32))" using is_double_minus [OF is_double_dyadic [of 11 5]] by simp
  have "- (23 / 64) \<le> 1 - x" "1 - x \<le> - (11 / 32)" using x(2,3) by simp_all
  from round64_between [OF d5 d6 this]
  obtain y where y: "round64 (1 - x) = Fin y" "y \<le> - (11 / 32)" by blast
  have "mul64 (fneg exp32) (Log ln64 (sub64 (Fin 1) (div64 (Fin e) exp32))) = NaN"
    using x(1) y by (simp add: div64_def sub64_def fsub_def mul64_def exp32_def Pow2_def)
  moreover have "\<not> e \<le> 40" "t < e" using e(2) t(2) by simp_all
  ultimately show ?thesis
    using Count_estimate_unfold [OF raw _ _ t(1), of 16 ln64] small_threshold_16 by simp
qed

lemma Count_estimate_without_registers:
  "Count_estimate ln64 \<lparr>m = 0, b = binf, alpha = Fin 0, registers = []\<rparr> = NaN"
  by (simp add: Count_estimate_def raw_estimate_def Let_def harmonic_sum_def to_float64_def
      float64_of_nat_def round64_exact is_double_zero mul64_def div64_def inf_of_sign_def fgt_def)

subsection \<open>Estimators of one register\<close>

lemma harmonic_sum_single:
  fixes r :: "8 word"
  shows "harmonic_sum [r] = Fin (1 / 2 ^ unat r)"
proof -
  have "round64 (1 / 2 ^ unat r) = Fin (1 / 2 ^ unat r)"
    using register_term [of r] by (simp add: div64_def Pow2_def)
  then show ?thesis by (simp add: harmonic_sum_fold add64_Fin)
qed

lemma round64_idem: "round64 x = Fin r \<Longrightarrow> round64 r = Fin r"
  by (intro round64_exact round64_is_double)

lemma small_threshold_1: "rne (5 / 2) = 5 / 2"
  using is_double_rne [OF is_double_dyadic [of 5 1]] by simp

lemma Count_estimate_single:
  assumes "round64 a = Fin a0" and "round64 (a0 * 2 ^ unat r) = Fin e" and "e < 2 ^ 27"
  shows "Count_estimate ln64 \<lparr>m = 1, b = 0, alpha = Fin a, registers = [r]\<rparr> =
    (if e \<le> 5 / 2 \<and> r = 0 then mul64 (Fin 1) (Log ln64 (Fin 1)) else Fin e)"
proof -
  let ?h = "\<lparr>m = 1, b = 0, alpha = Fin a, registers = [r]\<rparr>"
  obtain t where t: "mul64 (round64 (1 / 30)) exp32 = Fin t" "2 ^ 27 \<le> t"
    using large_threshold by blast
  have "raw_estimate ?h = Fin e"
    using assms(1,2) round64_idem [OF assms(1)]
    by (simp add: raw_estimate_def Let_def to_float64_exact mul64_def div64_def
        harmonic_sum_single)
  from Count_estimate_unfold [OF this _ _ t(1), of 1 ln64] assms(3) t(2) show ?thesis
    by (simp add: small_threshold_1 zero_registers_eq to_float64_exact div64_def
        round64_exact is_double_one)
qed

lemma Count_single_half_2:
  "Count_estimate ln64 \<lparr>m = 1, b = 0, alpha = Fin (1 / 2), registers = [2]\<rparr> = Fin 2"
proof -
  have a: "round64 (1 / 2) = Fin (1 / 2)"
    using round64_exact [OF is_double_dyadic [of 1 1]] by simp
  have b: "round64 (1 / 2 * 2 ^ unat (2 :: 8 word)) = Fin 2"
    using round64_exact [OF is_double_nat [of 2]] by simp
  from Count_estimate_single [OF a b] show ?thesis by simp
qed

lemma Count_single_half_3:
  "Count_estimate ln64 \<lparr>m = 1, b = 0, alpha = Fin (1 / 2), registers = [3]\<rparr> = Fin 4"
proof -
  have a: "round64 (1 / 2) = Fin (1 / 2)"
    using round64_exact [OF is_double_dyadic [of 1 1]] by simp
  have b: "round64 (1 / 2 * 2 ^ unat (3 :: 8 word)) = Fin 4"
    using round64_exact [OF is_double_nat [of 4]] by simp
  from Count_estimate_single [OF a b] show ?thesis by simp
qed

text \<open>The bias of one register is \<open>0.7213 / 2.079\<close>, about 0.347.\<close>

lemma get_alpha_1: "\<exists>a. get_alpha 1 = Fin a \<and> 11 / 32 \<le> a \<and> a \<le> 23 / 64"
proof -
  have "get_alpha 1 = Fin (7213 / 20790)" by (simp add: get_alpha_def float64_of_nat_def)
  moreover have "(11::real) / 32 \<le> 7213 / 20790" "(7213::real) / 20790 \<le> 23 / 64" by simp_all
  ultimately show ?thesis by blast
qed

lemma Count_single_bias_3:
  "Count ln64 impl \<lparr>m = 1, b = 0, alpha = get_alpha 1, registers = [3]\<rparr> = 2"
proof -
  from get_alpha_1 obtain a where a: "get_alpha 1 = Fin a" "11 / 32 \<le> a" "a \<le> 23 / 64" by blast
  have d1: "is_double (11 / 32)" using is_double_dyadic [of 11 5] by simp
  have d2: "is_double (23 / 64)" using is_double_dyadic [of 23 6] by simp
  from round64_between [OF d1 d2 a(2,3)]
  obtain a0 where a0: "round64 a = Fin a0" "11 / 32 \<le> a0" "a0 \<le> 23 / 64" by blast
  have d3: "is_double (11 / 4)" using is_double_dyadic [of 11 2] by simp
  have d4: "is_double (23 / 8)" using is_double_dyadic [of 23 3] by simp
  have "11 / 4 \<le> a0 * 2 ^ unat (3 :: 8 word)" "a0 * 2 ^ unat (3 :: 8 word) \<le> 23 / 8"
    using a0(2,3) by simp_all
  from round64_between [OF d3 d4 this]
  obtain e where e: "round64 (a0 * 2 ^ unat (3 :: 8 word)) = Fin e" "11 / 4 \<le> e" "e \<le> 23 / 8"
    by blast
  have "e < 2 ^ 27" using e(3) by simp
  from Count_estimate_single [OF a0(1) e(1) this, of ln64]
  have "Count_estimate ln64 \<lparr>m = 1, b = 0, alpha = get_alpha 1, registers = [3]\<rparr> = Fin e"
    using a(1) by simp
  moreover have "\<lfloor>e\<rfloor> = 2" using e(2,3) by (simp add: floor_eq_iff)
  ultimately show ?thesis using e(2) by (simp add: Count_def trunc_def)
qed

lemma Count_single_bias_2:
  "Count ln64 impl \<lparr>m = 1, b = 0, alpha = get_alpha 1, registers = [2]\<rparr> = 1"
proof -
  from get_alpha_1 obtain a where a: "get_alpha 1 = Fin a" "11 / 32 \<le> a" "a \<le> 23 / 64" by blast
  have d1: "is_double (11 / 32)" using is_double_dyadic [of 11 5] by simp
  have d2: "is_double (23 / 64)" using is_double_dyadic [of 23 6] by simp
  from round64_between [OF d1 d2 a(2,3)]
  obtain a0 where a0: "round64 a = Fin a0" "11 / 32 \<le> a0" "a0 \<le> 23 / 64" by blast
  have d3: "is_double (11 / 8)" using is_double_dyadic [of 11 3] by simp
  have d4: "is_double (23 / 16)" using is_double_dyadic [of 23 4] by simp
  have "11 / 8 \<le> a0 * 2 ^ unat (2 :: 8 word)" "a0 * 2 ^ unat (2 :: 8 word) \<le> 23 / 16"
    using a0(2,3) by simp_all
  from round64_between [OF d3 d4 this]
  obtain e where e: "round64 (a0 * 2 ^ unat (2 :: 8 word)) = Fin e" "11 / 8 \<le> e" "e \<le> 23 / 16"
    by blast
  have "e < 2 ^ 27" using e(3) by simp
  from Count_estimate_single [OF a0(1) e(1) this, of ln64]
  have "Count_estimate ln64 \<lparr>m = 1, b = 0, alpha = get_alpha 1, registers = [2]\<rparr> = Fin e"
    using a(1) by simp
  moreover have "\<lfloor>e\<rfloor> = 1" using e(2,3) by (simp add: floor_eq_iff)
  ultimately show ?thesis using e(2) by (simp add: Count_def trunc_def)
qed

lemma raw_estimate_fle:
  assumes rel: "list_all2 (\<le>) (registers g) (registers h)"
    and mg: "unat (m g) = n" and mh: "unat (m h) = n" and len: "length (registers g) = n"
    and n: "0 < n" "n < 2 ^ 53"
    and al: "alpha g = Fin a" "alpha h = Fin a" "0 \<le> a"
  shows "fle (raw_estimate g) (raw_estimate h)"
proof -
  have lenh: "length (registers h) = n" using rel len by (simp add: list_all2_lengthD)
  from raw_estimate_cases [OF mh lenh n al(2,3)] show ?thesis
  proof
    assume "raw_estimate h = PInf"
    then show ?thesis using raw_estimate_cases [OF mg len n al(1,3)] by auto
  next
    assume "\<exists>e. raw_estimate h = Fin e \<and> 0 \<le> e"
    then obtain e where e: "raw_estimate h = Fin e" by blast
    from raw_estimate_mono [OF rel mg mh len n al e] show ?thesis using e by auto
  qed
qed

subsection \<open>Claim C2\<close>

text \<open>
  C2 (amended). For every estimator state \<^verbatim>\<open>Count\<close> computes, in \<^verbatim>\<open>float64\<close> arithmetic
  with every operation rounded to the nearest binary64, the raw estimate
  \<open>E = alpha * m * m / sum\<close>, where \<open>sum\<close> adds \<open>1 / 2 ^ register\<close> over the registers from
  left to right; if \<open>E \<le> 2.5 * m\<close> it takes \<open>m * Log (m / v)\<close> when the number \<open>v\<close> of zero
  registers is positive and \<open>E\<close> when it is 0; else, if \<open>E\<close> is greater than the rounded
  \<open>1 / 30\<close> times \<open>2 ^ 32\<close>, it takes \<open>- 2 ^ 32 * Log (1 - E / 2 ^ 32)\<close>; else \<open>E\<close>. The result
  is that estimate converted to \<^verbatim>\<open>uint64\<close>: its integer part when it is a number in
  \<open>[0, 2 ^ 64)\<close>, and what the implementation makes of the conversion otherwise.
  \<^verbatim>\<open>Count\<close> has no failing path: the model is a total function. On an all-zero array of
  \<open>m\<close> registers, \<open>0 < m < 2 ^ 53\<close>, with a bias between 0 and 2 (as \<^verbatim>\<open>get_alpha\<close> gives)
  and \<^verbatim>\<open>math.Log(1) = 0\<close>, \<^verbatim>\<open>Count\<close> returns 0.
\<close>

theorem Count_computes_the_rounded_estimate:
  "Count ln64 impl h = to_uint64 impl (Count_estimate ln64 h) \<and>
   raw_estimate h =
     div64 (mul64 (mul64 (rnd (alpha h)) (to_float64 (unat (m h)))) (to_float64 (unat (m h))))
       (foldl (\<lambda>sum val. add64 sum (Fin (1 / 2 ^ unat val))) (Fin 0) (registers h)) \<and>
   zero_registers (registers h) = length (filter (\<lambda>r. r = 0) (registers h)) \<and>
   (fle (raw_estimate h) (mul64 (Fin (5 / 2)) (to_float64 (unat (m h)))) \<and>
    0 < zero_registers (registers h) \<longrightarrow>
      Count_estimate ln64 h =
        mul64 (to_float64 (unat (m h)))
          (Log ln64 (div64 (to_float64 (unat (m h))) (to_float64 (zero_registers (registers h)))))) \<and>
   (fle (raw_estimate h) (mul64 (Fin (5 / 2)) (to_float64 (unat (m h)))) \<and>
    zero_registers (registers h) = 0 \<longrightarrow>
      Count_estimate ln64 h = raw_estimate h) \<and>
   (\<not> fle (raw_estimate h) (mul64 (Fin (5 / 2)) (to_float64 (unat (m h)))) \<and>
    fgt (raw_estimate h) (mul64 (round64 (1 / 30)) exp32) \<longrightarrow>
      Count_estimate ln64 h =
        mul64 (fneg exp32) (Log ln64 (sub64 (Fin 1) (div64 (raw_estimate h) exp32)))) \<and>
   (\<not> fle (raw_estimate h) (mul64 (Fin (5 / 2)) (to_float64 (unat (m h)))) \<and>
    \<not> fgt (raw_estimate h) (mul64 (round64 (1 / 30)) exp32) \<longrightarrow>
      Count_estimate ln64 h = raw_estimate h) \<and>
   (Count_estimate ln64 h = Fin r \<and> 0 \<le> r \<and> r < 2 ^ 64 \<longrightarrow>
      uint (Count ln64 impl h) = \<lfloor>r\<rfloor>) \<and>
   (m h \<noteq> 0 \<and> unat (m h) < 2 ^ 53 \<and> registers h = replicate (unat (m h)) 0 \<and>
    alpha h = Fin a \<and> 0 \<le> a \<and> a \<le> 2 \<and> ln64 1 = Fin 0 \<longrightarrow>
      Count ln64 impl h = 0)"
proof -
  have a: "Count ln64 impl h = to_uint64 impl (Count_estimate ln64 h)"
    by (simp add: Count_def)
  have b: "raw_estimate h =
     div64 (mul64 (mul64 (rnd (alpha h)) (to_float64 (unat (m h)))) (to_float64 (unat (m h))))
       (foldl (\<lambda>sum val. add64 sum (Fin (1 / 2 ^ unat val))) (Fin 0) (registers h))"
    by (simp add: raw_estimate_def Let_def harmonic_sum_fold)
  have c: "zero_registers (registers h) = length (filter (\<lambda>r. r = 0) (registers h))"
    by (rule zero_registers_eq)
  have d: "fle (raw_estimate h) (mul64 (Fin (5 / 2)) (to_float64 (unat (m h)))) \<and>
    0 < zero_registers (registers h) \<longrightarrow>
      Count_estimate ln64 h =
        mul64 (to_float64 (unat (m h)))
          (Log ln64 (div64 (to_float64 (unat (m h))) (to_float64 (zero_registers (registers h)))))"
    by (simp add: Count_estimate_def Let_def)
  have e: "fle (raw_estimate h) (mul64 (Fin (5 / 2)) (to_float64 (unat (m h)))) \<and>
    zero_registers (registers h) = 0 \<longrightarrow>
      Count_estimate ln64 h = raw_estimate h"
    by (simp add: Count_estimate_def Let_def)
  have f: "\<not> fle (raw_estimate h) (mul64 (Fin (5 / 2)) (to_float64 (unat (m h)))) \<and>
    fgt (raw_estimate h) (mul64 (round64 (1 / 30)) exp32) \<longrightarrow>
      Count_estimate ln64 h =
        mul64 (fneg exp32) (Log ln64 (sub64 (Fin 1) (div64 (raw_estimate h) exp32)))"
    by (simp add: Count_estimate_def Let_def)
  have g: "\<not> fle (raw_estimate h) (mul64 (Fin (5 / 2)) (to_float64 (unat (m h)))) \<and>
    \<not> fgt (raw_estimate h) (mul64 (round64 (1 / 30)) exp32) \<longrightarrow>
      Count_estimate ln64 h = raw_estimate h"
    by (simp add: Count_estimate_def Let_def)
  have i: "Count_estimate ln64 h = Fin r \<and> 0 \<le> r \<and> r < 2 ^ 64 \<longrightarrow>
      uint (Count ln64 impl h) = \<lfloor>r\<rfloor>"
    using to_uint64_floor [of r impl] by (simp add: Count_def)
  have j: "m h \<noteq> 0 \<and> unat (m h) < 2 ^ 53 \<and> registers h = replicate (unat (m h)) 0 \<and>
    alpha h = Fin a \<and> 0 \<le> a \<and> a \<le> 2 \<and> ln64 1 = Fin 0 \<longrightarrow>
      Count ln64 impl h = 0"
    using Count_all_zero [of h a ln64 impl] by blast
  from a b c d e f g i j show ?thesis by (intro conjI)
qed

text \<open>
  The theorem at a fresh estimator of 16 registers and at one register of value 3 with
  the bias one half, where every operation is exact: \<open>E = 4\<close> is above 2.5 and no
  correction applies.
\<close>

theorem Count_computes_the_rounded_estimate_witness:
  "Count correctly_rounded_ln (\<lambda>x. 0)
     \<lparr>m = 16, b = 4, alpha = get_alpha 16, registers = replicate 16 0\<rparr> = 0 \<and>
   uint (Count correctly_rounded_ln (\<lambda>x. 0)
     \<lparr>m = 1, b = 0, alpha = Fin (1 / 2), registers = [3]\<rparr>) = 4"
proof -
  let ?h = "\<lparr>m = 16, b = 4, alpha = get_alpha 16, registers = replicate 16 0\<rparr>"
  let ?g = "\<lparr>m = 1, b = 0, alpha = Fin (1 / 2), registers = [3]\<rparr>"
  have l1: "correctly_rounded_ln 1 = Fin 0"
    by (simp add: correctly_rounded_ln_def round64_exact is_double_zero)
  have h: "m ?h \<noteq> 0 \<and> unat (m ?h) < 2 ^ 53 \<and> registers ?h = replicate (unat (m ?h)) 0 \<and>
    alpha ?h = Fin (673 / 1000) \<and> (0::real) \<le> 673 / 1000 \<and> (673::real) / 1000 \<le> 2 \<and>
    correctly_rounded_ln 1 = Fin 0"
    using l1 by (simp add: get_alpha_def)
  note H = Count_computes_the_rounded_estimate
    [where h = ?h and ?ln64.0 = correctly_rounded_ln and impl = "\<lambda>x. 0" and a = "673 / 1000"]
  from H [THEN conjunct2, THEN conjunct2, THEN conjunct2, THEN conjunct2, THEN conjunct2,
      THEN conjunct2, THEN conjunct2, THEN conjunct2] h
  have a: "Count correctly_rounded_ln (\<lambda>x. 0) ?h = 0" by (rule mp)
  have g: "Count_estimate correctly_rounded_ln ?g = Fin 4 \<and> (0::real) \<le> 4 \<and> (4::real) < 2 ^ 64"
    by (simp add: Count_single_half_3)
  note G = Count_computes_the_rounded_estimate
    [where h = ?g and ?ln64.0 = correctly_rounded_ln and impl = "\<lambda>x. 0" and r = 4]
  from G [THEN conjunct2, THEN conjunct2, THEN conjunct2, THEN conjunct2, THEN conjunct2,
      THEN conjunct2, THEN conjunct2, THEN conjunct1] g
  have "uint (Count correctly_rounded_ln (\<lambda>x. 0) ?g) = \<lfloor>4 :: real\<rfloor>" by (rule mp)
  then have b: "uint (Count correctly_rounded_ln (\<lambda>x. 0) ?g) = 4" by simp
  from a b show ?thesis ..
qed

text \<open>
  C2 as stated fails for a state that \<^verbatim>\<open>New\<close> and \<^verbatim>\<open>Add\<close> reach: with all 16 registers at
  the highest rank 29 the raw estimate is above \<open>2 ^ 32\<close>, so \<open>1 - E / 2 ^ 32\<close> is negative,
  its logarithm is NaN and so is the estimate. \<^verbatim>\<open>Count\<close> returns \<^verbatim>\<open>uint64(NaN)\<close>, which
  is no truncation of \<open>- 2 ^ 32 * ln (1 - E / 2 ^ 32)\<close> (the specification's formula has no
  value there) and which Go leaves to the implementation: 0 on one, \<open>2 ^ 63\<close> on another.
\<close>

theorem Count_beyond_hash_space_counterexample:
  "Count_estimate correctly_rounded_ln
     \<lparr>m = 16, b = 4, alpha = Fin 0.673,
      registers = [29,29,29,29,29,29,29,29,29,29,29,29,29,29,29,29]\<rparr> = NaN \<and>
   Count correctly_rounded_ln (\<lambda>x. 0)
     \<lparr>m = 16, b = 4, alpha = Fin 0.673,
      registers = [29,29,29,29,29,29,29,29,29,29,29,29,29,29,29,29]\<rparr> = 0 \<and>
   Count correctly_rounded_ln (\<lambda>x. 2 ^ 63)
     \<lparr>m = 16, b = 4, alpha = Fin 0.673,
      registers = [29,29,29,29,29,29,29,29,29,29,29,29,29,29,29,29]\<rparr> = 2 ^ 63"
proof -
  have "[29,29,29,29,29,29,29,29,29,29,29,29,29,29,29,29] = replicate 16 (29 :: 8 word)"
    by (simp add: numeral_eq_Suc)
  then show ?thesis using Count_estimate_sixteen_at_29 [of correctly_rounded_ln]
    by (simp add: Count_def)
qed

subsection \<open>Claim C5\<close>

text \<open>
  C5. For two estimators with the same register count \<open>m\<close>, a power of two (or 0) so
  that \<^verbatim>\<open>New\<close> accepts it, each with \<open>m\<close> registers, \<^verbatim>\<open>Intersect\<close> allocates a fresh
  estimator of \<open>m\<close> registers, merges both inputs into it (its registers end as the
  register-wise maximum), and returns, with no error, 0 when the count of the merged
  estimator exceeds the (wrapping) sum of the two counts, and the difference otherwise.
  The result is an unsigned number: it is the truncated difference of the two numbers,
  never below 0. The two inputs are as before in the store.
\<close>

theorem Intersect_is_clamped_inclusion_exclusion:
  assumes "p1 < length s" and "p2 < length s" and "m (s ! p1) = m (s ! p2)"
    and "m (s ! p1) AND (m (s ! p1) - 1) = 0"
    and "length (registers (s ! p1)) = unat (m (s ! p1))"
    and "length (registers (s ! p2)) = unat (m (s ! p2))"
  shows
    "(let merged = \<lparr>m = m (s ! p1), b = index_bits binf (m (s ! p1)), alpha = get_alpha (m (s ! p1)),
                    registers = map2 max (registers (s ! p1)) (registers (s ! p2))\<rparr>;
         unionCount = Count ln64 impl merged;
         cumulativeCount = Count ln64 impl (s ! p1) + Count ln64 impl (s ! p2);
         intersectCount = (if cumulativeCount < unionCount then 0 else cumulativeCount - unionCount)
     in Intersect ln64 impl binf p1 p2 s = Inr ((intersectCount, None), s @ [merged]) \<and>
        unat intersectCount = unat cumulativeCount - unat unionCount \<and>
        0 \<le> uint intersectCount)"
proof -
  have "unat (if c < u then 0 else c - u) = unat c - unat u" for c u :: "64 word"
    by (simp add: unat_sub word_less_nat_alt not_less word_le_nat_alt)
  then show ?thesis using Intersect_eq [OF assms, of ln64 impl binf] by (simp add: Let_def)
qed

text \<open>The theorem on two estimators with one register each, counts 2 and 1, union 2.\<close>

theorem Intersect_is_clamped_inclusion_exclusion_witness:
  "Intersect correctly_rounded_ln (\<lambda>x. 0) 0 0 1
     [\<lparr>m = 1, b = 0, alpha = get_alpha 1, registers = [3]\<rparr>,
      \<lparr>m = 1, b = 0, alpha = get_alpha 1, registers = [2]\<rparr>] =
   Inr ((1, None),
     [\<lparr>m = 1, b = 0, alpha = get_alpha 1, registers = [3]\<rparr>,
      \<lparr>m = 1, b = 0, alpha = get_alpha 1, registers = [2]\<rparr>,
      \<lparr>m = 1, b = 0, alpha = get_alpha 1, registers = [3]\<rparr>])"
proof -
  have c3: "Count correctly_rounded_ln (\<lambda>x. 0)
      \<lparr>m = 1, b = 0, alpha = get_alpha 1, registers = [3]\<rparr> = 2"
    by (rule Count_single_bias_3)
  have c2: "Count correctly_rounded_ln (\<lambda>x. 0)
      \<lparr>m = 1, b = 0, alpha = get_alpha 1, registers = [2]\<rparr> = 1"
    by (rule Count_single_bias_2)
  have ib: "index_bits 0 1 = 0" by (simp add: index_bits_def)
  show ?thesis
    using Intersect_is_clamped_inclusion_exclusion [of 0
      "[\<lparr>m = 1, b = 0, alpha = get_alpha 1, registers = [3]\<rparr>,
        \<lparr>m = 1, b = 0, alpha = get_alpha 1, registers = [2]\<rparr>]" 1 0 correctly_rounded_ln
      "\<lambda>x. 0"]
    by (simp add: Let_def c3 c2 ib)
qed

subsection \<open>Claim C7\<close>

text \<open>
  C7 (amended). For two estimators with equal register count \<open>m\<close>, \<open>0 < m < 2 ^ 53\<close>, \<open>m\<close>
  registers each and the same finite bias \<open>a \<ge> 0\<close>, the raw estimate \<open>E\<close> of the merged
  estimator is at least the raw estimate of either input. When moreover \<^verbatim>\<open>math.Log\<close> is
  monotone on the positive binary64 numbers, 0 at 1 and below \<open>(y - 1) * (1 + 1 / 256)\<close>
  from \<open>31 / 32\<close> down, and the merged estimate is a number below \<open>2 ^ 64\<close>, then the count
  of the merged estimator is at least the count of an input, unless that input is
  estimated by linear counting (its \<open>E \<le> 2.5 * m\<close> and it has a zero register) and the
  merged estimator is not.
\<close>

theorem Count_monotone_unless_linear_counting_ends:
  assumes "p1 < length s" and "p2 < length s" and "m (s ! p1) = m (s ! p2)"
    and "length (registers (s ! p1)) = unat (m (s ! p1))"
    and "length (registers (s ! p2)) = unat (m (s ! p2))"
    and "m (s ! p1) \<noteq> 0" and "unat (m (s ! p1)) < 2 ^ 53"
    and "alpha (s ! p1) = Fin a" and "alpha (s ! p2) = Fin a" and "0 \<le> a"
  shows "(let merged = (s ! p1)\<lparr>registers := map2 max (registers (s ! p1)) (registers (s ! p2))\<rparr>
     in Merge p1 p2 s = Inr (None, s[p1 := merged]) \<and>
        fle (raw_estimate (s ! p1)) (raw_estimate merged) \<and>
        fle (raw_estimate (s ! p2)) (raw_estimate merged) \<and>
        (monotone_log ln64 \<and> accurate_log ln64 \<and>
         Count_estimate ln64 merged = Fin r \<and> r < 2 ^ 64 \<longrightarrow>
           (\<not> (uses_linear_counting (s ! p1) \<and> \<not> uses_linear_counting merged) \<longrightarrow>
              Count ln64 impl (s ! p1) \<le> Count ln64 impl merged) \<and>
           (\<not> (uses_linear_counting (s ! p2) \<and> \<not> uses_linear_counting merged) \<longrightarrow>
              Count ln64 impl (s ! p2) \<le> Count ln64 impl merged)))"
proof -
  let ?h1 = "s ! p1" and ?h2 = "s ! p2"
  let ?r1 = "registers ?h1" and ?r2 = "registers ?h2"
  let ?hm = "?h1\<lparr>registers := map2 max ?r1 ?r2\<rparr>"
  let ?n = "unat (m ?h1)"
  have len: "length ?r1 = length ?r2" using assms(3,4,5) by simp
  have n: "0 < ?n" using assms(6) by (simp add: unat_gt_0)
  have merge: "Merge p1 p2 s = Inr (None, s[p1 := ?hm])"
    using assms(1,2,3) len by (rule Merge_eq)
  have rel1: "list_all2 (\<le>) (registers ?h1) (registers ?hm)"
    using list_all2_max_left [OF len] by simp
  have rel2: "list_all2 (\<le>) (registers ?h2) (registers ?hm)"
    using list_all2_max_right [OF len] by simp
  have m2: "unat (m ?h2) = ?n" using assms(3) by simp
  have mm: "unat (m ?hm) = ?n" by simp
  have am: "alpha ?hm = Fin a" using assms(8) by simp
  have l2: "length (registers ?h2) = ?n" using assms(3,5) by simp
  have raw1: "fle (raw_estimate ?h1) (raw_estimate ?hm)"
    using rel1 refl mm assms(4) n assms(7,8) am assms(10) by (rule raw_estimate_fle)
  have raw2: "fle (raw_estimate ?h2) (raw_estimate ?hm)"
    using rel2 m2 mm l2 n assms(7,9) am assms(10) by (rule raw_estimate_fle)
  have c1: "Count ln64 impl ?h1 \<le> Count ln64 impl ?hm"
    if "monotone_log ln64" "accurate_log ln64" "Count_estimate ln64 ?hm = Fin r" "r < 2 ^ 64"
      "\<not> (uses_linear_counting ?h1 \<and> \<not> uses_linear_counting ?hm)"
    using rel1 refl mm assms(4) n assms(7,8) am assms(10) that by (rule Count_mono)
  have c2: "Count ln64 impl ?h2 \<le> Count ln64 impl ?hm"
    if "monotone_log ln64" "accurate_log ln64" "Count_estimate ln64 ?hm = Fin r" "r < 2 ^ 64"
      "\<not> (uses_linear_counting ?h2 \<and> \<not> uses_linear_counting ?hm)"
    using rel2 m2 mm l2 n assms(7,9) am assms(10) that by (rule Count_mono)
  show ?thesis unfolding Let_def using merge raw1 raw2 c1 c2 by blast
qed

text \<open>
  The theorem on two estimators with one register each, of values 2 and 3, with the
  correctly rounded logarithm.
\<close>

theorem Count_monotone_unless_linear_counting_ends_witness:
  "Merge 0 1 [\<lparr>m = 1, b = 0, alpha = Fin (1 / 2), registers = [2]\<rparr>,
              \<lparr>m = 1, b = 0, alpha = Fin (1 / 2), registers = [3]\<rparr>] =
     Inr (None, [\<lparr>m = 1, b = 0, alpha = Fin (1 / 2), registers = [3]\<rparr>,
                 \<lparr>m = 1, b = 0, alpha = Fin (1 / 2), registers = [3]\<rparr>]) \<and>
   Count correctly_rounded_ln (\<lambda>x. 0) \<lparr>m = 1, b = 0, alpha = Fin (1 / 2), registers = [2]\<rparr>
     \<le> Count correctly_rounded_ln (\<lambda>x. 0) \<lparr>m = 1, b = 0, alpha = Fin (1 / 2), registers = [3]\<rparr>"
proof -
  let ?s = "[\<lparr>m = 1, b = 0, alpha = Fin (1 / 2), registers = [2]\<rparr>,
             \<lparr>m = 1, b = 0, alpha = Fin (1 / 2), registers = [3]\<rparr>]"
  have h: "(0::nat) < length ?s" "(1::nat) < length ?s" "m (?s ! 0) = m (?s ! 1)"
    "length (registers (?s ! 0)) = unat (m (?s ! 0))"
    "length (registers (?s ! 1)) = unat (m (?s ! 1))"
    "m (?s ! 0) \<noteq> 0" "unat (m (?s ! 0)) < 2 ^ 53"
    "alpha (?s ! 0) = Fin (1 / 2)" "alpha (?s ! 1) = Fin (1 / 2)"
    "(0::real) \<le> 1 / 2"
    by simp_all
  note T = Count_monotone_unless_linear_counting_ends
    [OF h, of correctly_rounded_ln 4 "\<lambda>x. 0", unfolded Let_def]
  have merge: "Merge 0 1 ?s = Inr (None, [\<lparr>m = 1, b = 0, alpha = Fin (1 / 2), registers = [3]\<rparr>,
                 \<lparr>m = 1, b = 0, alpha = Fin (1 / 2), registers = [3]\<rparr>])"
    using T [THEN conjunct1] by simp
  have pre: "monotone_log correctly_rounded_ln \<and> accurate_log correctly_rounded_ln \<and>
      Count_estimate correctly_rounded_ln
        ((?s ! 0)\<lparr>registers := map2 max (registers (?s ! 0)) (registers (?s ! 1))\<rparr>) = Fin 4 \<and>
      (4::real) < 2 ^ 64"
    using correctly_rounded_ln_monotone correctly_rounded_ln_accurate
    by (simp add: Count_single_half_3)
  have nl: "\<not> (uses_linear_counting (?s ! 0) \<and> \<not> uses_linear_counting
      ((?s ! 0)\<lparr>registers := map2 max (registers (?s ! 0)) (registers (?s ! 1))\<rparr>))"
    by (simp add: uses_linear_counting_def zero_registers_eq)
  from T [THEN conjunct2, THEN conjunct2, THEN conjunct2] pre
  have "(\<not> (uses_linear_counting (?s ! 0) \<and> \<not> uses_linear_counting
      ((?s ! 0)\<lparr>registers := map2 max (registers (?s ! 0)) (registers (?s ! 1))\<rparr>)) \<longrightarrow>
      Count correctly_rounded_ln (\<lambda>x. 0) (?s ! 0) \<le> Count correctly_rounded_ln (\<lambda>x. 0)
        ((?s ! 0)\<lparr>registers := map2 max (registers (?s ! 0)) (registers (?s ! 1))\<rparr>))"
    by blast
  with nl have "Count correctly_rounded_ln (\<lambda>x. 0) (?s ! 0) \<le> Count correctly_rounded_ln (\<lambda>x. 0)
        ((?s ! 0)\<lparr>registers := map2 max (registers (?s ! 0)) (registers (?s ! 1))\<rparr>)"
    by (rule rev_mp)
  then have le: "Count correctly_rounded_ln (\<lambda>x. 0)
      \<lparr>m = 1, b = 0, alpha = Fin (1 / 2), registers = [2]\<rparr>
     \<le> Count correctly_rounded_ln (\<lambda>x. 0) \<lparr>m = 1, b = 0, alpha = Fin (1 / 2), registers = [3]\<rparr>"
    by simp
  from merge le show ?thesis ..
qed

text \<open>
  C7 as stated fails where the small-range correction ends. With 16 registers and the
  bias 0.673, \<open>A\<close> has one zero register and fifteen of value 1: \<open>E = 20.27 \<le> 40\<close> and
  \<open>v = 1\<close>, so \<^verbatim>\<open>Count\<close> is \<open>16 * ln 16 = 44.36\<close>, truncated (at least 32). \<open>B\<close> has
  sixteen registers of value 1, the merged estimator too: \<open>E = 21.54 \<le> 40\<close> and \<open>v = 0\<close>,
  so \<^verbatim>\<open>Count\<close> is 21.
\<close>

theorem Count_not_monotone_counterexample:
  "Merge 0 1
     [\<lparr>m = 16, b = 4, alpha = Fin 0.673, registers = [0,1,1,1,1,1,1,1,1,1,1,1,1,1,1,1]\<rparr>,
      \<lparr>m = 16, b = 4, alpha = Fin 0.673, registers = [1,1,1,1,1,1,1,1,1,1,1,1,1,1,1,1]\<rparr>] =
   Inr (None,
     [\<lparr>m = 16, b = 4, alpha = Fin 0.673, registers = [1,1,1,1,1,1,1,1,1,1,1,1,1,1,1,1]\<rparr>,
      \<lparr>m = 16, b = 4, alpha = Fin 0.673, registers = [1,1,1,1,1,1,1,1,1,1,1,1,1,1,1,1]\<rparr>]) \<and>
   Count correctly_rounded_ln (\<lambda>x. 0)
     \<lparr>m = 16, b = 4, alpha = Fin 0.673, registers = [1,1,1,1,1,1,1,1,1,1,1,1,1,1,1,1]\<rparr> = 21 \<and>
   32 \<le> uint (Count correctly_rounded_ln (\<lambda>x. 0)
     \<lparr>m = 16, b = 4, alpha = Fin 0.673, registers = [0,1,1,1,1,1,1,1,1,1,1,1,1,1,1,1]\<rparr>) \<and>
   Count correctly_rounded_ln (\<lambda>x. 0)
     \<lparr>m = 16, b = 4, alpha = Fin 0.673, registers = [1,1,1,1,1,1,1,1,1,1,1,1,1,1,1,1]\<rparr>
     < Count correctly_rounded_ln (\<lambda>x. 0)
         \<lparr>m = 16, b = 4, alpha = Fin 0.673, registers = [0,1,1,1,1,1,1,1,1,1,1,1,1,1,1,1]\<rparr>"
proof -
  let ?A = "\<lparr>m = 16, b = 4, alpha = Fin 0.673, registers = [0,1,1,1,1,1,1,1,1,1,1,1,1,1,1,1]\<rparr>"
  let ?B = "\<lparr>m = 16, b = 4, alpha = Fin 0.673, registers = [1,1,1,1,1,1,1,1,1,1,1,1,1,1,1,1]\<rparr>"
  have merge: "Merge 0 1 [?A, ?B] = Inr (None, [?B, ?B])"
    using Merge_eq [of 0 "[?A, ?B]" 1] by simp
  have ones: "[1,1,1,1,1,1,1,1,1,1,1,1,1,1,1,1] = replicate 16 (1 :: 8 word)"
    by (simp add: numeral_eq_Suc)
  have zero: "[0,1,1,1,1,1,1,1,1,1,1,1,1,1,1,1] = 0 # replicate 15 (1 :: 8 word)"
    by (simp add: numeral_eq_Suc)
  have B: "Count correctly_rounded_ln (\<lambda>x. 0) ?B = 21"
    unfolding ones by (rule Count_sixteen_ones)
  have A: "32 \<le> uint (Count correctly_rounded_ln (\<lambda>x. 0) ?A)"
    unfolding zero by (rule Count_one_zero_register)
  have less: "Count correctly_rounded_ln (\<lambda>x. 0) ?B < Count correctly_rounded_ln (\<lambda>x. 0) ?A"
    unfolding B word_less_def using A by simp
  from merge B A less show ?thesis by (intro conjI)
qed

section \<open>The length invariant and Unserialize\<close>

lemma all_set_update:
  assumes "\<forall>h\<in>set s. P h" and "P x"
  shows "\<forall>h\<in>set (s[i := x]). P h"
proof
  fix h assume "h \<in> set (s[i := x])"
  then have "h \<in> insert x (set s)" using set_update_subset_insert [of s i x] by (rule subsetD [rotated])
  then show "P h" using assms by (cases "h = x") simp_all
qed

lemma Merge_loop_invariant:
  assumes "Merge_loop p1 p2 js s = Inr s'" and "p1 < length s"
    and "\<forall>h\<in>set s. length_invariant h"
  shows "\<forall>h\<in>set s'. length_invariant h"
  using assms
proof (induction js arbitrary: s)
  case Nil
  then show ?case by simp
next
  case (Cons j js)
  let ?regs1 = "registers (s ! p1)"
  let ?r = "registers (s ! p2) ! j"
  let ?h1 = "(s ! p1)\<lparr>registers := ?regs1[j := ?r]\<rparr>"
  let ?s1 = "if ?regs1 ! j < ?r then s[p1 := ?h1] else s"
  have unfold: "Merge_loop p1 p2 (j # js) s =
      (if j < length ?regs1 then Merge_loop p1 p2 js ?s1
       else Inl (Index (IndexOutOfRange j (length ?regs1))))"
    by (simp add: Let_def)
  have j: "j < length ?regs1"
    by (rule ccontr) (use Cons.prems(1) unfold in simp)
  have rest: "Merge_loop p1 p2 js ?s1 = Inr s'"
    using Cons.prems(1) j unfolding unfold by simp
  have "length_invariant (s ! p1)" using Cons.prems(2,3) by simp
  then have "length_invariant ?h1"
    by (simp add: length_invariant_def)
  then have "\<forall>h\<in>set (s[p1 := ?h1]). length_invariant h"
    using Cons.prems(3) by (intro all_set_update)
  then have inv: "\<forall>h\<in>set ?s1. length_invariant h"
    using Cons.prems(3) by (cases "?regs1 ! j < ?r") simp_all
  have "p1 < length ?s1" using Cons.prems(2) by simp
  with rest show ?case using inv by (rule Cons.IH)
qed

lemma Merge_invariant:
  assumes "Merge p1 p2 s = Inr (e, s')" and "\<forall>h\<in>set s. length_invariant h"
  shows "\<forall>h\<in>set s'. length_invariant h"
proof -
  have ptr: "p1 < length s \<and> p2 < length s"
    by (rule ccontr) (use assms(1) in \<open>simp add: Merge_def\<close>)
  show ?thesis
  proof (cases "m (s ! p1) = m (s ! p2)")
    case False
    then have "Merge p1 p2 s = Inr (Some (RegistersMismatch (m (s ! p1)) (m (s ! p2))), s)"
      using ptr by (simp add: Merge_def)
    with assms(1) have "s' = s" by simp
    then show ?thesis using assms(2) by simp
  next
    case True
    let ?loop = "Merge_loop p1 p2 [0..<length (registers (s ! p2))] s"
    have eq: "Merge p1 p2 s = (case ?loop of Inl f \<Rightarrow> Inl f | Inr s' \<Rightarrow> Inr (None, s'))"
      using ptr True by (simp add: Merge_def)
    have "?loop = Inr s'"
      using assms(1) unfolding eq by (cases ?loop) simp_all
    moreover have "p1 < length s" using ptr by simp
    ultimately show ?thesis using assms(2) by (rule Merge_loop_invariant)
  qed
qed

lemma New_invariant: "New binf regs = Inr h \<Longrightarrow> length_invariant h"
  by (auto simp: New_def Reset_def length_invariant_def split: if_splits)

lemma Add_invariant:
  "Add val h = Some (Inr h') \<Longrightarrow> length_invariant h \<Longrightarrow> length_invariant h'"
  by (auto simp: Add_def Let_def length_invariant_def split: option.splits if_splits)

lemma Intersect_invariant:
  assumes "Intersect ln64 impl binf p1 p2 s = Inr (res, s')" and "\<forall>h\<in>set s. length_invariant h"
  shows "\<forall>h\<in>set s'. length_invariant h"
proof (cases "p1 < length s \<and> p2 < length s \<and> m (s ! p1) = m (s ! p2)")
  case False
  with assms(1) have "s' = s" by (auto simp: Intersect_def split: if_splits)
  then show ?thesis using assms(2) by simp
next
  case True
  show ?thesis
  proof (cases "New binf (m (s ! p1))")
    case (Inl e)
    with True assms(1) have "s' = s" by (simp add: Intersect_def New_alloc_def)
    then show ?thesis using assms(2) by simp
  next
    case (Inr h)
    let ?s0 = "s @ [h]"
    have inv0: "\<forall>h\<in>set ?s0. length_invariant h"
      using assms(2) New_invariant [OF Inr] by simp
    have eq: "Intersect ln64 impl binf p1 p2 s =
        (case Merge (length s) p1 ?s0 of
           Inl f \<Rightarrow> Inl f
         | Inr (_, s1) \<Rightarrow>
             (case Merge (length s) p2 s1 of
                Inl f \<Rightarrow> Inl f
              | Inr (_, s2) \<Rightarrow>
                  (let unionCount = Count ln64 impl (s2 ! length s);
                       cumulativeCount = Count ln64 impl (s2 ! p1) + Count ln64 impl (s2 ! p2)
                   in if cumulativeCount < unionCount then Inr ((0, None), s2)
                      else Inr ((cumulativeCount - unionCount, None), s2))))"
      using True Inr by (simp add: Intersect_def New_alloc_def)
    obtain e1 s1 where m1: "Merge (length s) p1 ?s0 = Inr (e1, s1)"
      using assms(1) unfolding eq by (cases "Merge (length s) p1 ?s0") auto
    obtain e2 s2 where m2: "Merge (length s) p2 s1 = Inr (e2, s2)"
      using assms(1) unfolding eq m1 by (cases "Merge (length s) p2 s1") auto
    have s': "s' = s2"
      using assms(1) by (simp add: eq m1 m2 Let_def split: if_splits)
    have "\<forall>h\<in>set s1. length_invariant h" using m1 inv0 by (rule Merge_invariant)
    with m2 have "\<forall>h\<in>set s2. length_invariant h" by (rule Merge_invariant)
    then show ?thesis using s' by simp
  qed
qed

subsection \<open>Claim C8\<close>

text \<open>
  C8 (amended). \<^verbatim>\<open>len(registers) == registerCount\<close> holds for every estimator that
  \<^verbatim>\<open>New\<close> returns and after every \<^verbatim>\<open>Reset\<close>, and \<^verbatim>\<open>Add\<close>, \<^verbatim>\<open>Merge\<close> and
  \<^verbatim>\<open>Intersect\<close> keep it for every estimator of the store (the fresh one of
  \<^verbatim>\<open>Intersect\<close> included). \<^verbatim>\<open>Unserialize\<close> leaves the receiver as it is on a decoding
  error; on success it takes \<^verbatim>\<open>m\<close> and the registers from the decoded values without
  comparing them, so the invariant holds afterwards exactly when \<open>length R = M\<close>.
\<close>

theorem length_invariant_kept_except_by_Unserialize:
  "(New binf regs = Inr h \<longrightarrow> length_invariant h) \<and>
   length_invariant (Reset h) \<and>
   (length_invariant h \<and> Add val h = Some (Inr h') \<longrightarrow> length_invariant h') \<and>
   ((\<forall>h\<in>set s. length_invariant h) \<and> Merge p1 p2 s = Inr (e, s')
      \<longrightarrow> (\<forall>h\<in>set s'. length_invariant h)) \<and>
   ((\<forall>h\<in>set s. length_invariant h) \<and> Intersect ln64 impl binf p1 p2 s = Inr (res, s')
      \<longrightarrow> (\<forall>h\<in>set s'. length_invariant h)) \<and>
   fst (Unserialize (Inl err) h) = h \<and>
   m (fst (Unserialize (Inr d) h)) = M d \<and>
   length (registers (fst (Unserialize (Inr d) h))) = length (R d) \<and>
   length_invariant (fst (Unserialize (Inr d) h)) = (length (R d) = unat (M d))"
proof (intro conjI impI)
  show "length_invariant h" if "New binf regs = Inr h"
    using that by (rule New_invariant)
  show "length_invariant (Reset h)"
    by (simp add: Reset_def length_invariant_def)
  show "length_invariant h'" if "length_invariant h \<and> Add val h = Some (Inr h')"
    using that Add_invariant by blast
  show "\<forall>h\<in>set s'. length_invariant h"
    if "(\<forall>h\<in>set s. length_invariant h) \<and> Merge p1 p2 s = Inr (e, s')"
    using that Merge_invariant by blast
  show "\<forall>h\<in>set s'. length_invariant h"
    if "(\<forall>h\<in>set s. length_invariant h) \<and> Intersect ln64 impl binf p1 p2 s = Inr (res, s')"
    using that Intersect_invariant by blast
  show "fst (Unserialize (Inl err) h) = h"
    by (simp add: Unserialize_def)
  show "m (fst (Unserialize (Inr d) h)) = M d"
    by (simp add: Unserialize_def)
  show "length (registers (fst (Unserialize (Inr d) h))) = length (R d)"
    by (simp add: Unserialize_def)
  show "length_invariant (fst (Unserialize (Inr d) h)) = (length (R d) = unat (M d))"
    by (simp add: Unserialize_def length_invariant_def)
qed

text \<open>The theorem at \<^verbatim>\<open>New(16)\<close> and at a merge of two estimators with two registers.\<close>

theorem length_invariant_kept_except_by_Unserialize_witness:
  "New 0 16 = Inr \<lparr>m = 16, b = 4, alpha = Fin 0.673, registers = replicate 16 0\<rparr> \<and>
   length_invariant \<lparr>m = 16, b = 4, alpha = Fin 0.673, registers = replicate 16 0\<rparr> \<and>
   Merge 0 1 [\<lparr>m = 2, b = 1, alpha = Fin 0.7, registers = [1, 5]\<rparr>,
              \<lparr>m = 2, b = 1, alpha = Fin 0.7, registers = [3, 2]\<rparr>] =
     Inr (None, [\<lparr>m = 2, b = 1, alpha = Fin 0.7, registers = [3, 5]\<rparr>,
                 \<lparr>m = 2, b = 1, alpha = Fin 0.7, registers = [3, 2]\<rparr>]) \<and>
   length_invariant \<lparr>m = 2, b = 1, alpha = Fin 0.7, registers = [3, 5]\<rparr> \<and>
   length_invariant \<lparr>m = 2, b = 1, alpha = Fin 0.7, registers = [3, 2]\<rparr>"
proof -
  let ?h = "\<lparr>m = 16, b = 4, alpha = Fin 0.673, registers = replicate 16 0\<rparr>"
  let ?s = "[\<lparr>m = 2, b = 1, alpha = Fin 0.7, registers = [1, 5]\<rparr>,
             \<lparr>m = 2, b = 1, alpha = Fin 0.7, registers = [3, 2]\<rparr>]"
  let ?s' = "[\<lparr>m = 2, b = 1, alpha = Fin 0.7, registers = [3, 5]\<rparr>,
              \<lparr>m = 2, b = 1, alpha = Fin 0.7, registers = [3, 2]\<rparr>]"
  have new: "New 0 16 = Inr ?h"
    using New_pow2_spec [of 4 0] by (simp add: bias_spec_def)
  have inv: "\<forall>h\<in>set ?s. length_invariant h"
    by (simp add: length_invariant_def)
  have merge: "Merge 0 1 ?s = Inr (None, ?s')"
    using Merge_eq [of 0 ?s 1] by simp
  note T = length_invariant_kept_except_by_Unserialize
    [where binf = 0 and regs = 16 and h = ?h and s = ?s and ?p1.0 = 0 and ?p2.0 = 1
       and e = None and s' = ?s']
  from T [THEN conjunct1] new have a: "length_invariant ?h" by (rule mp)
  from T [THEN conjunct2, THEN conjunct2, THEN conjunct2, THEN conjunct1] inv merge
  have b: "\<forall>h\<in>set ?s'. length_invariant h" by blast
  from b have c: "length_invariant \<lparr>m = 2, b = 1, alpha = Fin 0.7, registers = [3, 5]\<rparr>"
    and d: "length_invariant \<lparr>m = 2, b = 1, alpha = Fin 0.7, registers = [3, 2]\<rparr>"
    by simp_all
  from new a merge c d show ?thesis by (intro conjI)
qed


text \<open>
  C8 as stated fails at \<^verbatim>\<open>Unserialize\<close>: the input \<^verbatim>\<open>{"M":16,"B":4,"A":0.673,"R":[]}\<close>
  decodes without error, and the receiver, a fresh estimator of 16 registers before the
  call, has \<open>m = 16\<close> and no register after it.
\<close>

theorem Unserialize_breaks_length_invariant_counterexample:
  "length_invariant \<lparr>m = 16, b = 4, alpha = Fin 0.673, registers = replicate 16 0\<rparr> \<and>
   \<not> length_invariant (fst (Unserialize (Inr \<lparr>M = 16, B = 4, A = Fin 0.673, R = []\<rparr>)
       \<lparr>m = 16, b = 4, alpha = Fin 0.673, registers = replicate 16 0\<rparr>))"
  by (simp add: length_invariant_def Unserialize_def)

subsection \<open>Claim C9\<close>

text \<open>
  C9 (amended). For every input that the decoder rejects, \<^verbatim>\<open>Unserialize\<close> leaves the
  target estimator exactly as it was and prints one line, \<^verbatim>\<open>error:\<close> and the decoder's
  message, on standard output; it returns nothing, so the caller holds the unmodified
  receiver and no error value.
\<close>

theorem Unserialize_rejects_silently:
  "Unserialize (Inl err) h = (h, [''error: '' @ err]) \<and>
   caller_view (Unserialize (Inl err) h) = h"
  by (simp add: Unserialize_def caller_view_def)

text \<open>
  C9 as stated fails: no error reaches the caller. On a zero estimator the rejected
  empty input and the accepted input \<^verbatim>\<open>{}\<close> (which decodes to the zero object) leave
  the caller with the same thing.
\<close>

theorem Unserialize_returns_no_error_counterexample:
  "caller_view (Unserialize (Inl ''unexpected end of JSON input'')
       \<lparr>m = 0, b = 0, alpha = Fin 0, registers = []\<rparr>) =
   caller_view (Unserialize (Inr \<lparr>M = 0, B = 0, A = Fin 0, R = []\<rparr>)
       \<lparr>m = 0, b = 0, alpha = Fin 0, registers = []\<rparr>)"
  by (simp add: Unserialize_def caller_view_def)



end
